theory Spec2Isabelle
  imports Complex_Main "HOL-Library.Word" "HOL-Library.Sublist" "HOL-Library.AList"
    "HOL-Library.Multiset"
begin

section \<open>The audio recorder of \<open>audio_recorder.py\<close>\<close>

text \<open>
  The class \<open>AudioRecorder\<close> is embedded as a record of its attributes and each method as a
  function from the record to the updated record. Audio is a list of bytes. Durations and
  times, which the source holds as Python floats, are exact reals here. The three values that
  \<open>process_audio_buffer\<close> obtains from outside the class for the buffered audio (the verdict of
  \<open>VADProcessor.check_vad_activity\<close>, the value of \<open>calculate_audio_amplitude\<close> and
  \<open>time.time()\<close>) are the fields of a \<open>window\<close>; the callbacks \<open>on_speech_detected\<close> and
  \<open>on_silence_detected\<close> are the empty functions that \<open>main.py\<close> registers.
\<close>

type_synonym bytes = "8 word list"

text \<open>A queue entry: \<open>(mono_audio, audio_length, actual_speech_duration)\<close>; the sentinel of
  \<open>stop_recording\<close> is \<open>None\<close>.\<close>

type_synonym audio_item = "bytes \<times> real \<times> real"

record recorder =
  samplerate :: int
  channels :: int
  blocksize :: int
  silence_timeout :: real
  min_speech_duration :: real
  enable_asr :: bool
  has_recognizer :: bool
  recording_active :: bool
  is_paused :: bool
  audio_buffer :: "bytes list"
  last_active_time :: real
  short_recordings :: nat
  speech_segments :: "bytes list"
  is_recording_speech :: bool
  speech_start_time :: "real option"
  is_processing :: bool
  actual_speech_duration :: real
  show_standby_status :: bool
  consecutive_speech_count :: nat
  asr_queue_size :: int
  asr_queue :: "audio_item option list"
  asr_consumer_active :: bool
  queued :: nat
  processed :: nat
  dropped :: nat
  resume_calls :: nat

record window =
  vad_result :: bool
  amplitude :: real
  current_time :: real
  save_ok :: bool

definition amplitude_threshold :: real where
  "amplitude_threshold = 0.1"

definition speech_confirmation_threshold :: nat where
  "speech_confirmation_threshold = 2"

text \<open>\<open>__init__\<close>: the attribute values a new recorder starts with. \<open>loaded\<close> says whether the
  recognizer's model was loaded (\<open>is_model_loaded\<close>); \<open>speech_recognizer\<close> is created only when
  \<open>enable_asr\<close> was passed as true.\<close>

definition init_recorder :: "int \<Rightarrow> int \<Rightarrow> int \<Rightarrow> real \<Rightarrow> real \<Rightarrow> bool \<Rightarrow> int \<Rightarrow> bool \<Rightarrow> real \<Rightarrow> recorder" where
  "init_recorder sr ch bs st md asr qs loaded now =
     \<lparr> samplerate = sr, channels = ch, blocksize = bs, silence_timeout = st,
       min_speech_duration = md, enable_asr = (asr \<and> loaded), has_recognizer = asr,
       recording_active = True, is_paused = False, audio_buffer = [],
       last_active_time = now, short_recordings = 0, speech_segments = [],
       is_recording_speech = False, speech_start_time = None, is_processing = False,
       actual_speech_duration = 0, show_standby_status = True,
       consecutive_speech_count = 0, asr_queue_size = qs, asr_queue = [],
       asr_consumer_active = True, queued = 0, processed = 0, dropped = 0,
       resume_calls = 0 \<rparr>"

subsection \<open>\<open>VADProcessor.stereo_to_mono\<close>\<close>

text \<open>Interleaved 16-bit samples: of every four bytes the first two are the left sample.\<close>

fun left_channel :: "bytes \<Rightarrow> bytes" where
  "left_channel (a # b # c # d # rest) = a # b # left_channel rest"
| "left_channel _ = []"

text \<open>\<open>np.frombuffer\<close> raises on an odd number of bytes and \<open>reshape(-1, 2)\<close> on an odd number
  of samples; the \<open>except\<close> clause then returns the input unchanged.\<close>

definition stereo_to_mono :: "int \<Rightarrow> bytes \<Rightarrow> bytes" where
  "stereo_to_mono ch stereo_data =
     (if odd (length stereo_data) then stereo_data
      else if ch = 2 then
        (if odd (length stereo_data div 2) then stereo_data else left_channel stereo_data)
      else stereo_data)"

subsection \<open>\<open>process_speech_segments\<close>\<close>

text \<open>\<open>queue.Queue.put_nowait\<close> raises \<open>queue.Full\<close> when \<open>0 < maxsize \<le> qsize\<close>; a
  \<open>maxsize\<close> of zero or less is an unbounded queue.\<close>

definition queue_full :: "recorder \<Rightarrow> bool" where
  "queue_full s \<longleftrightarrow> 0 < asr_queue_size s \<and> asr_queue_size s \<le> int (length (asr_queue s))"

text \<open>The division for \<open>audio_length\<close> raises when \<open>samplerate\<close> is zero, the debug branch
  raises when there is no recognizer object or when \<open>save_wav_file\<close> fails (\<open>wav_ok\<close> false);
  the outer \<open>except\<close> catches each, so the segments are then left as they are. \<open>finally\<close> always
  clears \<open>is_processing\<close>.\<close>

definition process_speech_segments :: "bool \<Rightarrow> recorder \<Rightarrow> recorder" where
  "process_speech_segments wav_ok s =
     (if speech_segments s = [] \<or> is_processing s then s
      else if samplerate s = 0 then s\<lparr>is_processing := False\<rparr>
      else
        let combined_audio = concat (speech_segments s);
            mono_audio = stereo_to_mono (channels s) combined_audio;
            audio_length = real (length mono_audio) / (real_of_int (samplerate s) * 2)
        in if enable_asr s \<and> has_recognizer s then
             (if queue_full s then
                s\<lparr>dropped := dropped s + 1, speech_segments := [], is_processing := False\<rparr>
              else
                s\<lparr>asr_queue := asr_queue s @ [Some (mono_audio, audio_length, actual_speech_duration s)],
                  queued := queued s + 1, speech_segments := [], is_processing := False\<rparr>)
           else if has_recognizer s \<and> wav_ok then
             s\<lparr>speech_segments := [], is_processing := False\<rparr>
           else s\<lparr>is_processing := False\<rparr>)"

subsection \<open>\<open>process_audio_buffer\<close>\<close>

definition is_speech_candidate :: "window \<Rightarrow> bool" where
  "is_speech_candidate w \<longleftrightarrow> vad_result w \<and> amplitude w > amplitude_threshold"

text \<open>Lines 366 to 390: the check whether the recording has to end.\<close>

definition check_end_of_recording :: "recorder \<Rightarrow> window \<Rightarrow> recorder" where
  "check_end_of_recording s w =
     (if is_recording_speech s
         \<and> current_time w - last_active_time s > silence_timeout s
         \<and> \<not> is_processing s
      then
        let s1 = (if actual_speech_duration s \<ge> min_speech_duration s
                  then process_speech_segments (save_ok w)
                         (s\<lparr>is_paused := True, show_standby_status := False\<rparr>)
                  else s\<lparr>short_recordings := short_recordings s + 1, speech_segments := []\<rparr>);
            s2 = s1\<lparr>is_recording_speech := False, speech_start_time := None,
                    actual_speech_duration := 0\<rparr>
        in if \<not> is_paused s2 then s2\<lparr>show_standby_status := True\<rparr> else s2
      else s)"

text \<open>Lines 324 to 348, the branch of a window that is speech. \<open>None\<close> is the early \<open>return\<close>
  of a window that is not yet confirmed: the caller then skips the rest of the method.\<close>

definition speech_window :: "recorder \<Rightarrow> bytes \<Rightarrow> window \<Rightarrow> recorder + recorder" where
  "speech_window s raw_audio w =
     (let s1 = s\<lparr>consecutive_speech_count := consecutive_speech_count s + 1\<rparr> in
      if \<not> is_recording_speech s1 \<and> consecutive_speech_count s1 < speech_confirmation_threshold
      then Inl s1
      else
        let s2 = (if \<not> is_recording_speech s1
                  then s1\<lparr>is_recording_speech := True, speech_start_time := Some (current_time w),
                          speech_segments := [], actual_speech_duration := 0,
                          show_standby_status := False\<rparr>
                  else s1)
        in Inr (s2\<lparr>last_active_time := current_time w,
                   speech_segments := speech_segments s2 @ [raw_audio],
                   actual_speech_duration := actual_speech_duration s2 + 0.3\<rparr>))"

text \<open>Lines 349 to 364, the branch of a window that is not speech.\<close>

definition silence_window :: "recorder \<Rightarrow> bytes \<Rightarrow> recorder" where
  "silence_window s raw_audio =
     (let s1 = s\<lparr>consecutive_speech_count := 0\<rparr> in
      if is_recording_speech s1
      then s1\<lparr>speech_segments := speech_segments s1 @ [raw_audio]\<rparr>
      else s1)"

text \<open>The whole method. \<open>None\<close> is the exception of \<open>calculate_audio_amplitude\<close>, which
  \<open>np.frombuffer\<close> raises on an odd number of bytes and \<open>np.max\<close> on no sample at all; it leaves
  the method before any attribute is written.\<close>

definition process_audio_buffer :: "recorder \<Rightarrow> window \<Rightarrow> recorder option" where
  "process_audio_buffer s w =
     (if is_paused s then Some s
      else
        let raw_audio = concat (audio_buffer s) in
        if raw_audio = [] \<or> odd (length raw_audio) then None
        else if is_speech_candidate w then
          (case speech_window s raw_audio w of
             Inl s1 \<Rightarrow> Some s1
           | Inr s1 \<Rightarrow> Some ((check_end_of_recording s1 w)\<lparr>audio_buffer := []\<rparr>))
        else Some ((check_end_of_recording (silence_window s raw_audio) w)\<lparr>audio_buffer := []\<rparr>))"

subsection \<open>\<open>audio_callback\<close>\<close>

text \<open>\<open>audio_data\<close> is the block after its conversion to 16-bit samples. The \<open>except\<close> clause
  of the callback catches the division by a zero \<open>samplerate\<close> and whatever
  \<open>process_audio_buffer\<close> raises; the block is in the buffer by then.\<close>

definition audio_callback :: "recorder \<Rightarrow> bytes \<Rightarrow> window \<Rightarrow> recorder" where
  "audio_callback s audio_data w =
     (if is_paused s then s\<lparr>audio_buffer := []\<rparr>
      else if recording_active s then
        let s1 = s\<lparr>audio_buffer := audio_buffer s @ [audio_data]\<rparr> in
        if samplerate s1 = 0 then s1
        else if real (length (audio_buffer s1)) * real_of_int (blocksize s1)
                  / real_of_int (samplerate s1) \<ge> 0.3
        then (case process_audio_buffer s1 w of None \<Rightarrow> s1 | Some s2 \<Rightarrow> s2)
        else s1
      else s)"

subsection \<open>The capture gate\<close>

definition pause_recording :: "recorder \<Rightarrow> recorder" where
  "pause_recording s =
     (if \<not> is_paused s then s\<lparr>is_paused := True, show_standby_status := False\<rparr> else s)"

definition resume_recording :: "recorder \<Rightarrow> recorder" where
  "resume_recording s =
     (let s1 = s\<lparr>resume_calls := resume_calls s + 1\<rparr> in
      if is_paused s1 then s1\<lparr>is_paused := False, show_standby_status := True\<rparr> else s1)"

definition ensure_recording_resumed :: "recorder \<Rightarrow> recorder" where
  "ensure_recording_resumed s = (if is_paused s then resume_recording s else s)"

subsection \<open>Runs of the recorder\<close>

text \<open>What happens to a recorder from outside: the audio device delivers a block (together
  with what the detector would say about the buffer that the block completes), another thread
  resumes or pauses the capture, the worker takes the oldest entry from the queue.\<close>

datatype event = Audio bytes window | Resume | Pause | Dequeue

fun step :: "recorder \<Rightarrow> event \<Rightarrow> recorder" where
  "step s (Audio audio_data w) = audio_callback s audio_data w"
| "step s Resume = resume_recording s"
| "step s Pause = pause_recording s"
| "step s Dequeue = s\<lparr>asr_queue := tl (asr_queue s)\<rparr>"

definition run :: "recorder \<Rightarrow> event list \<Rightarrow> recorder" where
  "run s es = foldl step s es"

text \<open>Whether an event is a block on which \<open>process_audio_buffer\<close> classifies a window: the
  capture is neither paused nor stopped, the buffer has reached 0.3 seconds and the amplitude
  can be computed.\<close>

definition classifies :: "recorder \<Rightarrow> event \<Rightarrow> bool" where
  "classifies s e =
     (case e of
        Audio audio_data w \<Rightarrow>
          \<not> is_paused s \<and> recording_active s \<and> samplerate s \<noteq> 0
          \<and> real (length (audio_buffer s) + 1) * real_of_int (blocksize s)
               / real_of_int (samplerate s) \<ge> 0.3
          \<and> concat (audio_buffer s @ [audio_data]) \<noteq> []
          \<and> even (length (concat (audio_buffer s @ [audio_data])))
      | _ \<Rightarrow> False)"

definition verdict :: "event \<Rightarrow> bool" where
  "verdict e = (case e of Audio audio_data w \<Rightarrow> is_speech_candidate w | _ \<Rightarrow> False)"

text \<open>The verdicts of the windows classified during a run, oldest first.\<close>

fun verdicts :: "recorder \<Rightarrow> event list \<Rightarrow> bool list" where
  "verdicts s [] = []"
| "verdicts s (e # es) = (if classifies s e then [verdict e] else []) @ verdicts (step s e) es"

subsection \<open>An example run\<close>

text \<open>The settings of \<open>main.py\<close>: 16000 Hz, two channels, blocks of 1024 frames, a silence
  timeout of 1.5 seconds, a minimum of 0.5 seconds of speech and a queue of 20 entries. A block
  is 1024 stereo frames of the sample 16384, half of full scale. Five blocks last 0.32 seconds
  and make a window; the window of a first, unconfirmed speech verdict stays in the buffer, so
  the sixth block completes the next window.\<close>

definition example_block :: bytes where
  "example_block = concat (replicate 2048 [0, 64])"

definition speech_at :: "real \<Rightarrow> window" where
  "speech_at t = \<lparr>vad_result = True, amplitude = 0.5, current_time = t, save_ok = True\<rparr>"

definition silence_at :: "real \<Rightarrow> window" where
  "silence_at t = \<lparr>vad_result = False, amplitude = 0.5, current_time = t, save_ok = True\<rparr>"

definition example_recorder :: "bool \<Rightarrow> recorder" where
  "example_recorder asr = init_recorder 16000 2 1024 1.5 0.5 asr 20 True 0"

text \<open>A recorder in the middle of a recording, with a queue of one entry that is full.\<close>

definition ex_full :: recorder where
  "ex_full = (init_recorder 16000 2 1024 1.5 0.5 True 1 True 0)
     \<lparr> speech_segments := [[1, 0, 2, 0]], asr_queue := [Some ([7, 0], 1, 0.6)],
       is_recording_speech := True, actual_speech_duration := 0.6 \<rparr>"

text \<open>Five blocks, the last of which completes a window with the verdict \<open>w\<close>.\<close>

definition blocks5 :: "window \<Rightarrow> event list" where
  "blocks5 w = [Audio example_block w, Audio example_block w, Audio example_block w,
                Audio example_block w, Audio example_block w]"

text \<open>Three speech windows, of which the second starts the recording, and then silence
  until the timeout has passed.\<close>

definition example_speech :: "event list" where
  "example_speech = blocks5 (speech_at 0.32) @ [Audio example_block (speech_at 0.384)]
                    @ blocks5 (speech_at 0.704)"

definition example_utterance :: "event list" where
  "example_utterance = example_speech @ blocks5 (silence_at 3)"

definition example_segments :: "bytes list" where
  "example_segments =
     [concat [example_block, example_block, example_block, example_block, example_block,
              example_block],
      concat [example_block, example_block, example_block, example_block, example_block],
      concat [example_block, example_block, example_block, example_block, example_block]]"

subsection \<open>What the theorem about durations speaks of\<close>

text \<open>A block of the fixed size: \<open>blocksize\<close> frames of \<open>channels\<close> samples of two bytes.\<close>

fun block_ok :: "int \<Rightarrow> int \<Rightarrow> event \<Rightarrow> bool" where
  "block_ok bs ch (Audio audio_data w) = (int (length audio_data) = bs * ch * 2)"
| "block_ok bs ch _ = True"

text \<open>A segment made of whole blocks that together last at least 0.3 seconds.\<close>

definition seg_ok :: "recorder \<Rightarrow> bytes \<Rightarrow> bool" where
  "seg_ok s seg \<longleftrightarrow>
     (\<exists>n. int (length seg) = int n * (blocksize s * channels s * 2)
        \<and> 0.3 * real_of_int (samplerate s) \<le> real n * real_of_int (blocksize s))"

text \<open>A queue entry whose speech duration is at most its total duration, the total being
  the duration of its mono bytes.\<close>

fun item_ok :: "int \<Rightarrow> audio_item option \<Rightarrow> bool" where
  "item_ok sr None = True"
| "item_ok sr (Some (mono_audio, audio_length, speech)) =
     (speech \<le> audio_length \<and> audio_length = real (length mono_audio) / (real_of_int sr * 2))"

text \<open>The invariant of a run: the buffer holds whole blocks, a recording in progress holds
  segments of at least 0.3 seconds each and no more than 0.3 seconds of speech for each, and
  the queue holds entries as above.\<close>

definition duration_inv :: "recorder \<Rightarrow> bool" where
  "duration_inv s \<longleftrightarrow>
     (\<forall>b \<in> set (audio_buffer s). int (length b) = blocksize s * channels s * 2)
     \<and> (is_recording_speech s \<longrightarrow>
          (\<forall>seg \<in> set (speech_segments s). seg_ok s seg)
          \<and> actual_speech_duration s \<le> 0.3 * real (length (speech_segments s)))
     \<and> (\<forall>it \<in> set (asr_queue s). item_ok (samplerate s) it)"

section \<open>The recording cache\<close>

text \<open>
  The cache is the part of \<open>AudioRecorder\<close> that \<open>_save_recording_file\<close>,
  \<open>_cleanup_recording_cache\<close> and \<open>find_recording_by_text\<close> work on: the index, a dictionary
  from the MD5 digest of the audio to the entry of the file, and the files in the cache
  directory. A Python dictionary keeps its keys in the order of their first insertion, and
  \<open>sorted\<close> is stable, so the index is an association list in that order. \<open>disk\<close> is the set of
  paths that exist in the file system. Strings are the UTF-8 bytes of the Python strings.
\<close>

record cache_entry =
  filename :: string
  created :: int
  entry_text :: string
  duration :: real
  speech_duration :: real
  entry_size :: nat
  recognition_success :: bool
  contains_silence :: bool

type_synonym cache_index = "(string \<times> cache_entry) list"

record recording_cache =
  save_recordings :: bool
  recording_cache_dir :: string
  max_cache_files :: int
  recording_cache_index :: cache_index
  disk :: "string set"
  total_recordings :: nat
  successful_recognitions :: nat
  failed_recognitions :: nat
  cached_files :: nat

text \<open>What the methods take from libraries and from the operating system: \<open>hashlib.md5\<close>, whether
  \<open>Path.unlink\<close> raises for a path, \<open>str.lower\<close> and \<open>str.strip\<close>.\<close>

record environment =
  md5_hexdigest :: "bytes \<Rightarrow> string"
  unlink_raises :: "string \<Rightarrow> bool"
  str_lower :: "string \<Rightarrow> string"
  str_strip :: "string \<Rightarrow> string"

text \<open>\<open>self.recording_cache_dir / name\<close>, for the relative names that the cache generates.\<close>

definition path_of :: "recording_cache \<Rightarrow> string \<Rightarrow> string" where
  "path_of c name = recording_cache_dir c @ ''/'' @ name"

text \<open>The decimal digits of an integer, as an f-string prints it.\<close>

fun digits :: "nat \<Rightarrow> string" where
  "digits n =
     (if n < 10 then [''0123456789'' ! n] else digits (n div 10) @ [''0123456789'' ! (n mod 10)])"

declare digits.simps [simp del]

definition str_int :: "int \<Rightarrow> string" where
  "str_int i = (if i < 0 then CHR ''-'' # digits (nat (- i)) else digits (nat i))"

text \<open>The text that the index records when nothing was recognized: the UTF-8 bytes of the
  three Chinese characters for "not recognized".\<close>

definition not_recognized :: string where
  "not_recognized = map char_of [0xE6, 0x9C, 0xAA, 0xE8, 0xAF, 0x86, 0xE5, 0x88, 0xAB :: nat]"

text \<open>Python's truth value of an optional string: \<open>None\<close> and the empty string are false.\<close>

fun truthy :: "string option \<Rightarrow> bool" where
  "truthy None = False"
| "truthy (Some t) = (t \<noteq> [])"

subsection \<open>\<open>_get_recording_hash\<close>\<close>

definition get_recording_hash :: "environment \<Rightarrow> bytes \<Rightarrow> string" where
  "get_recording_hash env audio_data = md5_hexdigest env audio_data"

subsection \<open>\<open>_cleanup_recording_cache\<close>\<close>

text \<open>The loop \<open>for i in range(files_to_remove)\<close> over \<open>sorted_items\<close>. The first component of
  the result says whether \<open>sorted_items[i]\<close> raised \<open>IndexError\<close>, which is outside the \<open>try\<close>;
  what was deleted before stays deleted. Inside the \<open>try\<close>, an \<open>unlink\<close> that raises skips the
  \<open>del\<close> of the index entry.\<close>

fun remove_oldest ::
  "environment \<Rightarrow> nat \<Rightarrow> cache_index \<Rightarrow> recording_cache \<Rightarrow> bool \<times> recording_cache" where
  "remove_oldest env 0 sorted_items c = (False, c)"
| "remove_oldest env (Suc n) [] c = (True, c)"
| "remove_oldest env (Suc n) ((hash_key, file_info) # sorted_items) c =
     (let file_path = path_of c (filename file_info) in
      if file_path \<in> disk c \<and> unlink_raises env file_path
      then remove_oldest env n sorted_items c
      else remove_oldest env n sorted_items
             (c\<lparr>disk := disk c - {file_path},
                recording_cache_index := AList.delete hash_key (recording_cache_index c)\<rparr>))"

definition cleanup_recording_cache :: "environment \<Rightarrow> recording_cache \<Rightarrow> bool \<times> recording_cache" where
  "cleanup_recording_cache env c =
     (if int (length (recording_cache_index c)) \<le> max_cache_files c then (False, c)
      else
        let sorted_items = sort_key (\<lambda>x. created (snd x)) (recording_cache_index c);
            files_to_remove = nat (int (length (recording_cache_index c)) - max_cache_files c)
        in remove_oldest env files_to_remove sorted_items c)"

subsection \<open>\<open>__init__\<close>, as far as the cache goes\<close>

text \<open>\<open>loaded\<close> is the index that \<open>_load_recording_cache_index\<close> returns and \<open>files\<close> the paths
  that exist. \<open>None\<close>: the constructor ends in the exception of the cleanup.\<close>

definition init_recording_cache ::
  "environment \<Rightarrow> bool \<Rightarrow> string \<Rightarrow> int \<Rightarrow> cache_index \<Rightarrow> string set \<Rightarrow> recording_cache option" where
  "init_recording_cache env save dir maxf loaded files =
     (let c = \<lparr> save_recordings = save, recording_cache_dir = dir, max_cache_files = maxf,
                recording_cache_index = loaded, disk = files, total_recordings = 0,
                successful_recognitions = 0, failed_recognitions = 0,
                cached_files = length loaded \<rparr>
      in if int (length (recording_cache_index c)) > max_cache_files c
         then (case cleanup_recording_cache env c of
                 (True, c1) \<Rightarrow> None
               | (False, c1) \<Rightarrow> Some c1)
         else Some c)"

subsection \<open>\<open>_save_recording_file\<close>\<close>

text \<open>\<open>timestamp\<close> is \<open>int(time.time())\<close>, \<open>wav_ok\<close> says whether \<open>save_wav_file\<close> returns rather
  than raises, and \<open>s\<close> is the recorder, for its \<open>samplerate\<close>, its recognizer and its
  \<open>actual_speech_duration\<close>. Every exception ends in the \<open>except\<close> clause, which returns \<open>None\<close>
  and undoes nothing: a failed write, the division by a zero \<open>samplerate\<close>, the \<open>IndexError\<close>
  of the cleanup.\<close>

definition save_recording_file ::
  "environment \<Rightarrow> int \<Rightarrow> bool \<Rightarrow> recorder \<Rightarrow> recording_cache \<Rightarrow> bytes \<Rightarrow> string option
     \<Rightarrow> string option \<times> recording_cache" where
  "save_recording_file env timestamp wav_ok s c audio_data recognized_text =
     (if \<not> save_recordings c then (None, c)
      else
        let audio_hash = get_recording_hash env audio_data;
            name = ''rec_'' @ str_int timestamp @ ''_'' @ take 8 audio_hash @ ''.wav'';
            file_path = path_of c name
        in if has_recognizer s \<and> \<not> wav_ok then (None, c)
           else
             let c1 = (if has_recognizer s then c\<lparr>disk := insert file_path (disk c)\<rparr> else c) in
             if samplerate s = 0 then (None, c1)
             else
               let entry = \<lparr> filename = name, created = timestamp,
                       entry_text = (case recognized_text of
                                       None \<Rightarrow> not_recognized
                                     | Some t \<Rightarrow> if t = [] then not_recognized else t),
                       duration = real (length audio_data) / real_of_int (samplerate s * 2),
                       speech_duration = actual_speech_duration s,
                       entry_size = length audio_data,
                       recognition_success = (recognized_text \<noteq> None),
                       contains_silence = True \<rparr>;
                   c2 = c1\<lparr>recording_cache_index :=
                            AList.update audio_hash entry (recording_cache_index c1)\<rparr>
               in case cleanup_recording_cache env c2 of
                    (True, c3) \<Rightarrow> (None, c3)
                  | (False, c3) \<Rightarrow>
                      (Some file_path,
                       c3\<lparr>total_recordings := total_recordings c3 + 1,
                          successful_recognitions :=
                            (if truthy recognized_text then successful_recognitions c3 + 1
                             else successful_recognitions c3),
                          cached_files := length (recording_cache_index c3)\<rparr>))"

text \<open>A sequence of calls of \<open>_save_recording_file\<close>, each with its own time, write outcome,
  recorder, audio and text.\<close>

type_synonym put_call = "int \<times> bool \<times> recorder \<times> bytes \<times> string option"

fun put_all :: "environment \<Rightarrow> recording_cache \<Rightarrow> put_call list \<Rightarrow> recording_cache" where
  "put_all env c [] = c"
| "put_all env c ((timestamp, wav_ok, s, audio_data, recognized_text) # calls) =
     put_all env (snd (save_recording_file env timestamp wav_ok s c audio_data recognized_text)) calls"

subsection \<open>\<open>find_recording_by_text\<close>\<close>

text \<open>Python's \<open>needle in haystack\<close> on strings.\<close>

fun str_contains :: "string \<Rightarrow> string \<Rightarrow> bool" where
  "str_contains needle [] = (needle = [])"
| "str_contains needle (h # hs) = (prefix needle (h # hs) \<or> str_contains needle hs)"

record found_recording =
  found_hash :: string
  found_file_path :: string
  found_text :: string
  found_created :: int
  found_duration :: real

text \<open>The loop over \<open>self.recording_cache_index.items()\<close>, with \<open>results\<close> as it grows.\<close>

fun find_loop ::
  "environment \<Rightarrow> recording_cache \<Rightarrow> string \<Rightarrow> cache_index \<Rightarrow> found_recording list
     \<Rightarrow> found_recording list" where
  "find_loop env c query [] results = results"
| "find_loop env c query ((hash_key, file_info) # items) results =
     find_loop env c query items
       (if str_contains (str_lower env query) (str_lower env (entry_text file_info))
        then
          (if path_of c (filename file_info) \<in> disk c
           then results @ [\<lparr> found_hash = hash_key,
                              found_file_path = path_of c (filename file_info),
                              found_text = entry_text file_info,
                              found_created = created file_info,
                              found_duration = duration file_info \<rparr>]
           else results)
        else results)"

definition find_recording_by_text ::
  "environment \<Rightarrow> recording_cache \<Rightarrow> string \<Rightarrow> found_recording list" where
  "find_recording_by_text env c query = find_loop env c query (recording_cache_index c) []"


subsection \<open>What the theorems about the cache speak of\<close>

text \<open>The name of the file that \<open>_save_recording_file\<close> writes, and the entry it records.\<close>

definition file_name_of :: "environment \<Rightarrow> int \<Rightarrow> bytes \<Rightarrow> string" where
  "file_name_of env timestamp audio_data =
     ''rec_'' @ str_int timestamp @ ''_'' @ take 8 (get_recording_hash env audio_data) @ ''.wav''"

definition new_entry :: "int \<Rightarrow> string \<Rightarrow> recorder \<Rightarrow> bytes \<Rightarrow> string option \<Rightarrow> cache_entry" where
  "new_entry timestamp name s audio_data recognized_text =
     \<lparr> filename = name, created = timestamp,
       entry_text = (case recognized_text of
                       None \<Rightarrow> not_recognized
                     | Some t \<Rightarrow> if t = [] then not_recognized else t),
       duration = real (length audio_data) / real_of_int (samplerate s * 2),
       speech_duration = actual_speech_duration s,
       entry_size = length audio_data,
       recognition_success = (recognized_text \<noteq> None),
       contains_silence = True \<rparr>"

text \<open>The dictionary that \<open>find_recording_by_text\<close> appends for an index item, and the
  condition under which the claim says an item is part of the result.\<close>

definition found_of :: "recording_cache \<Rightarrow> string \<times> cache_entry \<Rightarrow> found_recording" where
  "found_of c item =
     \<lparr> found_hash = fst item, found_file_path = path_of c (filename (snd item)),
       found_text = entry_text (snd item), found_created = created (snd item),
       found_duration = duration (snd item) \<rparr>"

definition matches :: "environment \<Rightarrow> recording_cache \<Rightarrow> string \<Rightarrow> string \<times> cache_entry \<Rightarrow> bool" where
  "matches env c query item \<longleftrightarrow>
     (\<exists>before after. str_lower env (entry_text (snd item)) = before @ str_lower env query @ after)
     \<and> path_of c (filename (snd item)) \<in> disk c"

subsection \<open>An example cache\<close>

text \<open>\<open>str.lower\<close> on ASCII text, and an environment in which \<open>md5_hexdigest\<close> gives the MD5
  digests of the three byte strings used below.\<close>

definition ascii_lower :: "char \<Rightarrow> char" where
  "ascii_lower ch =
     (case map_of (zip ''ABCDEFGHIJKLMNOPQRSTUVWXYZ'' ''abcdefghijklmnopqrstuvwxyz'') ch of
        None \<Rightarrow> ch
      | Some l \<Rightarrow> l)"

definition example_md5 :: "bytes \<Rightarrow> string" where
  "example_md5 b =
     (if b = [1, 0, 2, 0] then ''99ffb3d9eeadc24aa4f9b13530176bf8''
      else if b = [7, 0] then ''6264a30ebd7d7c8e62f4981f64601d33''
      else ''25daad3d9e60b45043a70c4ab7d3b1c6'')"

definition example_env :: environment where
  "example_env = \<lparr> md5_hexdigest = example_md5, unlink_raises = (\<lambda>p. False),
                   str_lower = map ascii_lower, str_strip = (\<lambda>t. t) \<rparr>"

definition locked_env :: environment where
  "locked_env = example_env\<lparr>unlink_raises := (\<lambda>p. p = ''recording_cache/rec_100_6264a30e.wav'')\<rparr>"

definition example_cache :: "int \<Rightarrow> recording_cache" where
  "example_cache maxf =
     \<lparr> save_recordings = True, recording_cache_dir = ''recording_cache'',
       max_cache_files = maxf, recording_cache_index = [], disk = {},
       total_recordings = 0, successful_recognitions = 0, failed_recognitions = 0,
       cached_files = 0 \<rparr>"

definition example_calls :: "put_call list" where
  "example_calls =
     [(100, True, example_recorder True, [7, 0], Some ''Hello there''),
      (200, True, example_recorder True, [1, 0, 2, 0], None)]"

definition same_audio_calls :: "put_call list" where
  "same_audio_calls =
     [(100, True, example_recorder True, [1, 0, 2, 0], Some ''Hello there''),
      (101, True, example_recorder True, [1, 0, 2, 0], Some ''Hello there'')]"

definition lookup_cache :: recording_cache where
  "lookup_cache =
     (example_cache 5)
       \<lparr> recording_cache_index :=
           [(''6264a30ebd7d7c8e62f4981f64601d33'',
             new_entry 100 ''rec_100_6264a30e.wav'' (example_recorder True) [7, 0]
               (Some ''Hello there'')),
            (''99ffb3d9eeadc24aa4f9b13530176bf8'',
             new_entry 200 ''rec_200_99ffb3d9.wav'' (example_recorder True) [1, 0, 2, 0]
               (Some ''hello again'')),
            (''25daad3d9e60b45043a70c4ab7d3b1c6'',
             new_entry 300 ''rec_300_25daad3d.wav'' (example_recorder True) [1, 0]
               (Some ''Good bye''))],
         disk := {''recording_cache/rec_100_6264a30e.wav'',
                  ''recording_cache/rec_300_25daad3d.wav''} \<rparr>"

section \<open>The recognition worker and the response thread\<close>

subsection \<open>\<open>asr_consumer_worker\<close>\<close>

text \<open>How a call of the callback \<open>on_recognition_result\<close> ends: it returns, or it raises an
  exception with a message; the flag says whether the exception is a \<open>TypeError\<close>.\<close>

datatype call_result = Returns | Raises bool string

text \<open>What one turn of the loop takes from outside: the result of \<open>recognize_from_memory\<close>
  (which catches its own exceptions and returns \<open>None\<close> on failure), the time and the write
  outcome for \<open>_save_recording_file\<close>, whether a callback is registered, and how its call with
  the keyword argument and its call without end.\<close>

record iteration =
  recognized :: "string option"
  timestamp :: int
  wav_ok :: bool
  callback_set :: bool
  first_call :: call_result
  second_call :: call_result

datatype loop_control = Continue | Break

text \<open>\<open>"memory" in str(e).lower() or "model" in str(e).lower()\<close>\<close>

definition is_fatal :: "environment \<Rightarrow> string \<Rightarrow> bool" where
  "is_fatal env msg \<longleftrightarrow>
     str_contains ''memory'' (str_lower env msg) \<or> str_contains ''model'' (str_lower env msg)"

text \<open>The clause \<open>except Exception as e\<close> of the loop.\<close>

definition worker_exception ::
  "environment \<Rightarrow> string \<Rightarrow> recorder \<Rightarrow> recording_cache
     \<Rightarrow> loop_control \<times> recorder \<times> recording_cache" where
  "worker_exception env msg s c =
     (let s1 = ensure_recording_resumed s in
      if is_fatal env msg then (Break, s1\<lparr>asr_consumer_active := False\<rparr>, c)
      else (Continue, s1, c))"

text \<open>\<open>recognized_text and recognized_text.strip()\<close>\<close>

definition text_ok :: "environment \<Rightarrow> string option \<Rightarrow> bool" where
  "text_ok env recognized_text \<longleftrightarrow>
     (case recognized_text of None \<Rightarrow> False | Some t \<Rightarrow> t \<noteq> [] \<and> str_strip env t \<noteq> [])"

text \<open>The call of the callback: with the keyword argument first, and without it when that
  raised \<open>TypeError\<close>. The result is the message of the exception that leaves the \<open>try\<close>.\<close>

definition call_callback :: "iteration \<Rightarrow> string option" where
  "call_callback it =
     (case first_call it of
        Returns \<Rightarrow> None
      | Raises True msg \<Rightarrow>
          (case second_call it of Returns \<Rightarrow> None | Raises b msg2 \<Rightarrow> Some msg2)
      | Raises False msg \<Rightarrow> Some msg)"

text \<open>The message of the \<open>AttributeError\<close> that \<open>self.speech_recognizer.recognize_from_memory\<close>
  raises when there is no recognizer object.\<close>

definition no_recognizer_message :: string where
  "no_recognizer_message =
     [CHR 0x27] @ ''NoneType'' @ [CHR 0x27] @ '' object has no attribute ''
       @ [CHR 0x27] @ ''recognize_from_memory'' @ [CHR 0x27]"

text \<open>One turn of the loop \<open>while self.asr_consumer_active\<close>. An empty queue is the
  \<open>queue.Empty\<close> of \<open>get(timeout=1.0)\<close>.\<close>

definition asr_consumer_iteration ::
  "environment \<Rightarrow> iteration \<Rightarrow> recorder \<Rightarrow> recording_cache
     \<Rightarrow> loop_control \<times> recorder \<times> recording_cache" where
  "asr_consumer_iteration env it s c =
     (case asr_queue s of
        [] \<Rightarrow> (Continue, s, c)
      | None # rest \<Rightarrow> (Break, s\<lparr>asr_queue := rest\<rparr>, c)
      | Some (audio_data, audio_length, speech) # rest \<Rightarrow>
          let s1 = s\<lparr>asr_queue := rest, processed := processed s + 1\<rparr> in
          if \<not> has_recognizer s1 then worker_exception env no_recognizer_message s1 c
          else
            let recognized_text = recognized it;
                saved = save_recording_file env (timestamp it) (wav_ok it) s1 c audio_data
                          recognized_text;
                recording_file = fst saved;
                c1 = snd saved;
                s2 = (if truthy recording_file \<and> \<not> text_ok env recognized_text
                      then ensure_recording_resumed s1 else s1);
                c2 = (if truthy recording_file \<and> \<not> text_ok env recognized_text
                      then c1\<lparr>failed_recognitions := failed_recognitions c1 + 1\<rparr> else c1)
            in if text_ok env recognized_text \<and> callback_set it
               then (case call_callback it of
                       None \<Rightarrow> (Continue, s2, c2)
                     | Some msg \<Rightarrow> worker_exception env msg s2 c2)
               else (Continue, s2, c2))"

text \<open>The loop, one \<open>iteration\<close> for each turn. The first component of the result says
  whether the loop has ended; when the list is used up and it has not, the worker is still
  running.\<close>

fun asr_consumer_worker ::
  "environment \<Rightarrow> iteration list \<Rightarrow> recorder \<Rightarrow> recording_cache
     \<Rightarrow> bool \<times> recorder \<times> recording_cache" where
  "asr_consumer_worker env [] s c = (\<not> asr_consumer_active s, s, c)"
| "asr_consumer_worker env (it # its) s c =
     (if \<not> asr_consumer_active s then (True, s, c)
      else (case asr_consumer_iteration env it s c of
              (Break, s1, c1) \<Rightarrow> (True, s1, c1)
            | (Continue, s1, c1) \<Rightarrow> asr_consumer_worker env its s1 c1))"

subsection \<open>\<open>VoiceChatSystem.on_recognition_result\<close> of \<open>main.py\<close>\<close>

text \<open>How the steps of the thread \<open>process_ai_response\<close> end: whether the response was
  generated and recorded without an exception, whether speech output is enabled, and whether
  the body of the inner \<open>try\<close> (synthesis, playback and the update of the record) returned.\<close>

record response =
  ai_ok :: bool
  tts_enabled :: bool
  tts_ok :: bool

text \<open>With speech output enabled the inner \<open>try\<close> has a \<open>finally\<close> clause that resumes the
  recording; an exception of its body then reaches the \<open>except\<close> clause around it, which
  resumes once more. The outermost \<open>except\<close> clause resumes when the response failed.\<close>

definition process_ai_response :: "response \<Rightarrow> recorder \<Rightarrow> recorder" where
  "process_ai_response r s =
     (if \<not> ai_ok r then resume_recording s
      else if tts_enabled r then
        (if tts_ok r then resume_recording s
         else resume_recording (resume_recording s))
      else resume_recording s)"

text \<open>One recording on its way from the queue to the end of the response: the turn of the
  worker with \<open>on_recognition_result\<close> of \<open>main.py\<close> as the callback, which starts the thread
  and returns, and then the thread, if the callback was called. While the capture is paused
  nothing else writes the gate, so this order is the only one.\<close>

definition handle_recording ::
  "environment \<Rightarrow> iteration \<Rightarrow> response \<Rightarrow> recorder \<Rightarrow> recording_cache \<Rightarrow> recorder" where
  "handle_recording env it r s c =
     (let it1 = it\<lparr>callback_set := True, first_call := Returns\<rparr>;
          s1 = fst (snd (asr_consumer_iteration env it1 s c))
      in if text_ok env (recognized it1) then process_ai_response r s1 else s1)"

text \<open>Whether \<open>_save_recording_file\<close> returns a path in that turn.\<close>

definition recording_saved ::
  "environment \<Rightarrow> iteration \<Rightarrow> recorder \<Rightarrow> recording_cache \<Rightarrow> bool" where
  "recording_saved env it s c =
     (case asr_queue s of
        Some (audio_data, audio_length, speech) # rest \<Rightarrow>
          truthy (fst (save_recording_file env (timestamp it) (wav_ok it)
                         (s\<lparr>asr_queue := rest, processed := processed s + 1\<rparr>) c audio_data
                         (recognized it)))
      | _ \<Rightarrow> False)"

subsection \<open>Example recordings\<close>

text \<open>The recorder after the example utterance: the capture is paused and the recording is on
  the queue.\<close>

definition queued_recorder :: recorder where
  "queued_recorder = run (example_recorder True) example_utterance"

definition example_iteration :: "string option \<Rightarrow> call_result \<Rightarrow> iteration" where
  "example_iteration t res =
     \<lparr> recognized = t, timestamp = 100, wav_ok = True, callback_set = True,
       first_call = res, second_call = res \<rparr>"

text \<open>A second utterance, ten seconds later.\<close>

definition later_utterance :: "event list" where
  "later_utterance =
     blocks5 (speech_at 10.32) @ [Audio example_block (speech_at 10.384)]
       @ blocks5 (speech_at 10.704) @ blocks5 (silence_at 13)"

text \<open>The recorder after the worker took the example recording from the queue and the
  callback raised an exception that speaks of memory.\<close>

definition after_fatal :: recorder where
  "after_fatal =
     fst (snd (asr_consumer_iteration example_env
       (example_iteration (Some ''hello'') (Raises False ''CUDA out of memory''))
       queued_recorder (example_cache 5)))"


section \<open>Properties of the recorder\<close>

subsection \<open>The example run\<close>

lemma example_block_length [simp]: "length example_block = 4096"
  by (simp add: example_block_def length_concat sum_list_replicate)

lemma example_block_nonempty [simp]: "example_block \<noteq> []"
  using example_block_length by fastforce

lemmas example_defs = example_recorder_def init_recorder_def blocks5_def example_speech_def
  run_def audio_callback_def process_audio_buffer_def speech_window_def silence_window_def
  check_end_of_recording_def process_speech_segments_def is_speech_candidate_def
  speech_at_def silence_at_def amplitude_threshold_def speech_confirmation_threshold_def
  queue_full_def Let_def

lemma pss_count [simp]: "consecutive_speech_count (process_speech_segments ok s) = consecutive_speech_count s"
  by (simp add: process_speech_segments_def Let_def)

lemma ceor_count [simp]: "consecutive_speech_count (check_end_of_recording s w) = consecutive_speech_count s"
  by (simp add: check_end_of_recording_def Let_def)

lemma step_count:
  "consecutive_speech_count (step s e) =
     (if classifies s e then (if verdict e then consecutive_speech_count s + 1 else 0)
      else consecutive_speech_count s)"
proof (cases e)
  case (Audio d w)
  then show ?thesis
    by (auto simp: audio_callback_def process_audio_buffer_def classifies_def verdict_def
        speech_window_def silence_window_def Let_def split: sum.splits if_splits)
qed (simp_all add: classifies_def resume_recording_def pause_recording_def Let_def)

lemma run_snoc: "run s (es @ [e]) = step (run s es) e"
  by (simp add: run_def)

lemma verdicts_append: "verdicts s (es @ fs) = verdicts s es @ verdicts (run s es) fs"
  by (induction es arbitrary: s) (simp_all add: run_def)

lemma run_count:
  "consecutive_speech_count (run s es) =
     (if list_all (\<lambda>b. b) (verdicts s es) then consecutive_speech_count s + length (verdicts s es)
      else length (takeWhile (\<lambda>b. b) (rev (verdicts s es))))"
proof (induction es rule: rev_induct)
  case Nil
  then show ?case by (simp add: run_def)
next
  case (snoc e es)
  show ?case
    using snoc by (simp add: run_snoc verdicts_append step_count takeWhile_append1)
qed

lemma pss_rec [simp]: "is_recording_speech (process_speech_segments ok s) = is_recording_speech s"
  by (simp add: process_speech_segments_def Let_def)

lemma ceor_rec: "is_recording_speech (check_end_of_recording s w) \<Longrightarrow> is_recording_speech s"
  by (simp add: check_end_of_recording_def Let_def split: if_splits)

lemma step_starts:
  assumes "\<not> is_recording_speech s" and "is_recording_speech (step s e)"
  shows "classifies s e \<and> verdict e \<and> speech_confirmation_threshold \<le> consecutive_speech_count s + 1"
proof (cases e)
  case (Audio d w)
  then show ?thesis using assms
    by (auto simp: audio_callback_def process_audio_buffer_def classifies_def verdict_def
        speech_window_def silence_window_def Let_def split: sum.splits if_splits option.splits
        dest!: ceor_rec)
qed (use assms in \<open>simp_all add: classifies_def resume_recording_def pause_recording_def Let_def split: if_splits\<close>)

lemma trailing_all:
  "list_all (\<lambda>b. b) vs \<Longrightarrow> length (takeWhile (\<lambda>b. b) (rev vs)) = length vs"
proof -
  assume "list_all (\<lambda>b. b) vs"
  then have "\<forall>b\<in>set (rev vs). b" by (simp add: list_all_iff)
  then have "takeWhile (\<lambda>b. b) (rev vs) = rev vs"
    by (metis takeWhile_eq_all_conv)
  then show ?thesis by (metis length_rev)
qed

subsection \<open>Confirmation of the speech onset\<close>

text \<open>
  Claim C4. Started with the counter at zero, a recorder begins to record only on a window
  that is classified as speech (verdict of the detector true and amplitude above
  \<open>amplitude_threshold\<close>) and that ends a row of at least \<open>speech_confirmation_threshold\<close>
  classified windows that were all speech. Every classified window that is not speech sets
  the counter back to zero, so one speech window between windows that are not speech starts
  no recording and leaves the segment list as it was.
\<close>

theorem hysteresis:
  assumes "consecutive_speech_count s0 = 0"
  shows "(\<not> is_recording_speech (run s0 es) \<and> is_recording_speech (step (run s0 es) e) \<longrightarrow>
            classifies (run s0 es) e \<and> verdict e
            \<and> speech_confirmation_threshold
                 \<le> length (takeWhile (\<lambda>b. b) (rev (verdicts s0 (es @ [e])))))
       \<and> (classifies s e1 \<and> \<not> verdict e1 \<longrightarrow> consecutive_speech_count (step s e1) = 0)
       \<and> (\<not> is_recording_speech s \<and> consecutive_speech_count s = 0
            \<and> classifies s e2 \<and> verdict e2
            \<and> classifies (step s e2) e3 \<and> \<not> verdict e3 \<longrightarrow>
            \<not> is_recording_speech (step (step s e2) e3)
            \<and> speech_segments (step (step s e2) e3) = speech_segments s
            \<and> consecutive_speech_count (step (step s e2) e3) = 0)"
proof (intro conjI impI)
  assume a: "\<not> is_recording_speech (run s0 es) \<and> is_recording_speech (step (run s0 es) e)"
  then have st: "classifies (run s0 es) e \<and> verdict e
      \<and> speech_confirmation_threshold \<le> consecutive_speech_count (run s0 es) + 1"
    using step_starts by blast
  then show "classifies (run s0 es) e" and "verdict e" by simp_all
  have c1: "consecutive_speech_count (run s0 (es @ [e])) = consecutive_speech_count (run s0 es) + 1"
    using st by (simp add: run_snoc step_count)
  have c2: "consecutive_speech_count (run s0 (es @ [e]))
      = (if list_all (\<lambda>b. b) (verdicts s0 (es @ [e])) then length (verdicts s0 (es @ [e]))
         else length (takeWhile (\<lambda>b. b) (rev (verdicts s0 (es @ [e])))))"
    using run_count [of s0 "es @ [e]"] assms by simp
  show "speech_confirmation_threshold
      \<le> length (takeWhile (\<lambda>b. b) (rev (verdicts s0 (es @ [e]))))"
  proof (cases "list_all (\<lambda>b. b) (verdicts s0 (es @ [e]))")
    case True
    then have "length (takeWhile (\<lambda>b. b) (rev (verdicts s0 (es @ [e]))))
        = length (verdicts s0 (es @ [e]))"
      by (rule trailing_all)
    then show ?thesis using True c1 c2 st by simp
  next
    case False
    then show ?thesis using c1 c2 st by simp
  qed
next
  assume "classifies s e1 \<and> \<not> verdict e1"
  then show "consecutive_speech_count (step s e1) = 0"
    by (simp add: step_count)
next
  assume b: "\<not> is_recording_speech s \<and> consecutive_speech_count s = 0
            \<and> classifies s e2 \<and> verdict e2
            \<and> classifies (step s e2) e3 \<and> \<not> verdict e3"
  have r1: "\<not> is_recording_speech (step s e2)"
    using b step_starts [of s e2] by (auto simp: speech_confirmation_threshold_def)
  then show "\<not> is_recording_speech (step (step s e2) e3)"
    using b step_starts [of "step s e2" e3] by blast
  show "consecutive_speech_count (step (step s e2) e3) = 0"
    using b by (simp add: step_count)
  obtain d2 w2 where e2: "e2 = Audio d2 w2"
    using b by (cases e2) (simp_all add: classifies_def)
  obtain d3 w3 where e3: "e3 = Audio d3 w3"
    using b by (cases e3) (simp_all add: classifies_def)
  have s2: "speech_segments (step s e2) = speech_segments s"
    using b e2
    by (auto simp: audio_callback_def process_audio_buffer_def classifies_def verdict_def
        speech_window_def speech_confirmation_threshold_def Let_def split: sum.splits if_splits)
  have "speech_segments (step (step s e2) e3) = speech_segments (step s e2)"
    using b e3 r1
    by (auto simp: audio_callback_def process_audio_buffer_def classifies_def verdict_def
        silence_window_def check_end_of_recording_def Let_def split: sum.splits if_splits)
  then show "speech_segments (step (step s e2) e3) = speech_segments s"
    using s2 by simp
qed

theorem hysteresis_witness:
  "consecutive_speech_count (example_recorder True) = 0
   \<and> \<not> is_recording_speech (run (example_recorder True) (blocks5 (speech_at 0.32)))
   \<and> is_recording_speech (step (run (example_recorder True) (blocks5 (speech_at 0.32)))
         (Audio example_block (speech_at 0.384)))
   \<and> speech_confirmation_threshold
        \<le> length (takeWhile (\<lambda>b. b) (rev (verdicts (example_recorder True)
             (blocks5 (speech_at 0.32) @ [Audio example_block (speech_at 0.384)]))))
   \<and> classifies (run (example_recorder True) (blocks5 (speech_at 0.32)))
        (Audio example_block (silence_at 0.384))
   \<and> consecutive_speech_count (step (run (example_recorder True) (blocks5 (speech_at 0.32)))
        (Audio example_block (silence_at 0.384))) = 0
   \<and> \<not> is_recording_speech (step (run (example_recorder True) (blocks5 (speech_at 0.32)))
        (Audio example_block (silence_at 0.384)))"
  using hysteresis [where ?s0.0 = "example_recorder True" and es = "blocks5 (speech_at 0.32)"
      and e = "Audio example_block (speech_at 0.384)"
      and s = "run (example_recorder True) (blocks5 (speech_at 0.32))"
      and ?e1.0 = "Audio example_block (silence_at 0.384)"]
  by (simp add: example_defs classifies_def verdict_def)

subsection \<open>The minimum duration at the end of a recording\<close>

text \<open>
  Claim C2, as amended. When the silence timeout has passed during a recording, a recording
  whose \<open>actual_speech_duration\<close> is below \<open>min_speech_duration\<close> is dropped: the segments
  are cleared, the queue is untouched and \<open>short_recordings\<close> goes up by one. A recording of at
  least \<open>min_speech_duration\<close> pauses the capture and goes to \<open>process_speech_segments\<close>,
  which puts it on the queue exactly when recognition is enabled, the recognizer exists and the
  queue is not full; in every other case the queue stays as it was.
\<close>

theorem min_duration_filter:
  assumes "is_recording_speech s"
    and "current_time w - last_active_time s > silence_timeout s"
    and "\<not> is_processing s"
  shows "(actual_speech_duration s < min_speech_duration s \<longrightarrow>
            asr_queue (check_end_of_recording s w) = asr_queue s
            \<and> queued (check_end_of_recording s w) = queued s
            \<and> speech_segments (check_end_of_recording s w) = []
            \<and> short_recordings (check_end_of_recording s w) = short_recordings s + 1
            \<and> is_paused (check_end_of_recording s w) = is_paused s)
       \<and> (actual_speech_duration s \<ge> min_speech_duration s \<longrightarrow>
            is_paused (check_end_of_recording s w)
            \<and> short_recordings (check_end_of_recording s w) = short_recordings s
            \<and> (speech_segments s \<noteq> [] \<and> samplerate s \<noteq> 0 \<longrightarrow>
                 asr_queue (check_end_of_recording s w) =
                   (if enable_asr s \<and> has_recognizer s \<and> \<not> queue_full s
                    then asr_queue s @
                      [Some (stereo_to_mono (channels s) (concat (speech_segments s)),
                             real (length (stereo_to_mono (channels s) (concat (speech_segments s))))
                               / (real_of_int (samplerate s) * 2),
                             actual_speech_duration s)]
                    else asr_queue s)))"
  using assms
  by (simp add: check_end_of_recording_def process_speech_segments_def queue_full_def Let_def)

theorem min_duration_filter_witness:
  "is_recording_speech ex_full
   \<and> current_time (silence_at 3) - last_active_time ex_full > silence_timeout ex_full
   \<and> \<not> is_processing ex_full
   \<and> min_speech_duration ex_full \<le> actual_speech_duration ex_full
   \<and> is_paused (check_end_of_recording ex_full (silence_at 3))
   \<and> asr_queue (check_end_of_recording ex_full (silence_at 3)) = asr_queue ex_full
   \<and> asr_queue (check_end_of_recording (ex_full\<lparr>asr_queue_size := 2\<rparr>) (silence_at 3))
        = [Some ([7, 0], 1, 0.6), Some ([1, 0], 1 / 16000, 0.6)]
   \<and> asr_queue (check_end_of_recording (ex_full\<lparr>actual_speech_duration := 0.3\<rparr>) (silence_at 3))
        = asr_queue ex_full
   \<and> short_recordings (check_end_of_recording (ex_full\<lparr>actual_speech_duration := 0.3\<rparr>)
        (silence_at 3)) = 1"
  using min_duration_filter [of ex_full "silence_at 3"]
    min_duration_filter [of "ex_full\<lparr>asr_queue_size := 2\<rparr>" "silence_at 3"]
    min_duration_filter [of "ex_full\<lparr>actual_speech_duration := 0.3\<rparr>" "silence_at 3"]
  by (simp add: ex_full_def init_recorder_def silence_at_def queue_full_def stereo_to_mono_def)

text \<open>
  Against claim C2 as stated: with recognition switched off (\<open>enable_asr\<close> false), a recording
  with 0.6 seconds of speech, above the minimum of 0.5, ends without an entry on the queue.
\<close>

theorem min_duration_unqueued:
  "is_recording_speech (run (example_recorder False) example_speech)
   \<and> actual_speech_duration (run (example_recorder False) example_speech) = 0.6
   \<and> min_speech_duration (run (example_recorder False) example_speech) = 0.5
   \<and> \<not> is_recording_speech (run (example_recorder False) example_utterance)
   \<and> is_paused (run (example_recorder False) example_utterance)
   \<and> short_recordings (run (example_recorder False) example_utterance) = 0
   \<and> asr_queue (run (example_recorder False) example_utterance) = []"
  by (simp add: example_defs example_utterance_def)

subsection \<open>Silence inside a recording\<close>

text \<open>
  Claim C8. During a recording a classified window that is not speech is appended to
  \<open>speech_segments\<close> and leaves \<open>actual_speech_duration\<close> as it was; when the same window also
  ends the recording, the entry put on the queue holds its bytes and the unchanged duration.
  A window after which \<open>actual_speech_duration\<close> is greater than before is a speech window,
  and it adds 0.3.
\<close>

theorem silence_retention:
  assumes "process_audio_buffer s w = Some s'" and "\<not> is_paused s"
  shows "(is_recording_speech s \<and> \<not> is_speech_candidate w
            \<and> \<not> (current_time w - last_active_time s > silence_timeout s \<and> \<not> is_processing s) \<longrightarrow>
            speech_segments s' = speech_segments s @ [concat (audio_buffer s)]
            \<and> actual_speech_duration s' = actual_speech_duration s)
       \<and> (is_recording_speech s \<and> \<not> is_speech_candidate w
            \<and> current_time w - last_active_time s > silence_timeout s \<and> \<not> is_processing s
            \<and> actual_speech_duration s \<ge> min_speech_duration s
            \<and> enable_asr s \<and> has_recognizer s \<and> \<not> queue_full s \<and> samplerate s \<noteq> 0 \<longrightarrow>
            asr_queue s' = asr_queue s @
              [Some (stereo_to_mono (channels s) (concat (speech_segments s @ [concat (audio_buffer s)])),
                     real (length (stereo_to_mono (channels s)
                             (concat (speech_segments s @ [concat (audio_buffer s)]))))
                       / (real_of_int (samplerate s) * 2),
                     actual_speech_duration s)])
       \<and> (0 \<le> actual_speech_duration s \<and> actual_speech_duration s < actual_speech_duration s' \<longrightarrow>
            is_speech_candidate w
            \<and> actual_speech_duration s' =
                (if is_recording_speech s then actual_speech_duration s else 0) + 0.3)"
proof (intro conjI impI)
  assume "is_recording_speech s \<and> \<not> is_speech_candidate w
            \<and> \<not> (current_time w - last_active_time s > silence_timeout s \<and> \<not> is_processing s)"
  then show "speech_segments s' = speech_segments s @ [concat (audio_buffer s)]"
    and "actual_speech_duration s' = actual_speech_duration s"
    using assms
    by (auto simp: process_audio_buffer_def silence_window_def check_end_of_recording_def Let_def
        split: if_splits)
next
  assume "is_recording_speech s \<and> \<not> is_speech_candidate w
            \<and> current_time w - last_active_time s > silence_timeout s \<and> \<not> is_processing s
            \<and> actual_speech_duration s \<ge> min_speech_duration s
            \<and> enable_asr s \<and> has_recognizer s \<and> \<not> queue_full s \<and> samplerate s \<noteq> 0"
  then show "asr_queue s' = asr_queue s @
              [Some (stereo_to_mono (channels s) (concat (speech_segments s @ [concat (audio_buffer s)])),
                     real (length (stereo_to_mono (channels s)
                             (concat (speech_segments s @ [concat (audio_buffer s)]))))
                       / (real_of_int (samplerate s) * 2),
                     actual_speech_duration s)]"
    using assms
    by (auto simp: process_audio_buffer_def silence_window_def check_end_of_recording_def
        process_speech_segments_def queue_full_def Let_def split: if_splits)
next
  assume c: "0 \<le> actual_speech_duration s \<and> actual_speech_duration s < actual_speech_duration s'"
  have pss: "actual_speech_duration (process_speech_segments ok t) = actual_speech_duration t" for ok t
    by (simp add: process_speech_segments_def Let_def)
  have ce: "actual_speech_duration (check_end_of_recording t w) = actual_speech_duration t
            \<or> actual_speech_duration (check_end_of_recording t w) = 0" for t
    by (simp add: check_end_of_recording_def Let_def pss)
  show "is_speech_candidate w"
  proof (rule ccontr)
    assume n: "\<not> is_speech_candidate w"
    have "actual_speech_duration (silence_window s r) = actual_speech_duration s" for r
      by (simp add: silence_window_def Let_def)
    then show False
      using assms c n ce [of "silence_window s (concat (audio_buffer s))"]
      by (auto simp: process_audio_buffer_def Let_def split: if_splits)
  qed
  then have sw: "process_audio_buffer s w =
      (case speech_window s (concat (audio_buffer s)) w of
         Inl s1 \<Rightarrow> Some s1
       | Inr s1 \<Rightarrow> Some ((check_end_of_recording s1 w)\<lparr>audio_buffer := []\<rparr>))"
    using assms by (auto simp: process_audio_buffer_def Let_def split: if_splits)
  show "actual_speech_duration s' =
                (if is_recording_speech s then actual_speech_duration s else 0) + 0.3"
  proof (cases "speech_window s (concat (audio_buffer s)) w")
    case (Inl s1)
    then have "actual_speech_duration s' = actual_speech_duration s"
      using sw assms by (auto simp: speech_window_def Let_def split: if_splits)
    then show ?thesis using c by simp
  next
    case (Inr s1)
    then have d1: "actual_speech_duration s1 =
        (if is_recording_speech s then actual_speech_duration s else 0) + 0.3"
      by (auto simp: speech_window_def Let_def split: if_splits)
    have "actual_speech_duration s' = actual_speech_duration (check_end_of_recording s1 w)"
      using sw assms Inr by auto
    then show ?thesis
      using ce [of s1] c d1 by auto
  qed
qed

theorem silence_retention_witness:
  "process_audio_buffer
      ((run (example_recorder True) example_speech)\<lparr>audio_buffer := [example_block]\<rparr>)
      (silence_at 1)
     = Some ((run (example_recorder True) example_speech)
         \<lparr>consecutive_speech_count := 0,
          speech_segments := speech_segments (run (example_recorder True) example_speech)
                               @ [example_block]\<rparr>)
   \<and> \<not> is_paused (run (example_recorder True) example_speech)
   \<and> is_recording_speech (run (example_recorder True) example_speech)
   \<and> \<not> is_speech_candidate (silence_at 1)
   \<and> actual_speech_duration (run (example_recorder True) example_speech) = 0.6"
  using silence_retention [of "(run (example_recorder True) example_speech)\<lparr>audio_buffer := [example_block]\<rparr>"
      "silence_at 1"
      "(run (example_recorder True) example_speech)
         \<lparr>consecutive_speech_count := 0,
          speech_segments := speech_segments (run (example_recorder True) example_speech)
                               @ [example_block]\<rparr>"]
  by (simp add: example_defs)

subsection \<open>Durations of queued recordings\<close>

lemma length_left_channel: "length (left_channel xs) = 2 * (length xs div 4)"
  by (induction xs rule: left_channel.induct) simp_all

lemma concat_segs:
  assumes "\<forall>seg \<in> set segs. seg_ok s seg"
  shows "\<exists>n. int (length (concat segs)) = int n * (blocksize s * channels s * 2)
        \<and> 0.3 * real_of_int (samplerate s) * real (length segs) \<le> real n * real_of_int (blocksize s)"
  using assms
proof (induction segs)
  case Nil
  show ?case by (rule exI [of _ 0]) simp
next
  case (Cons seg segs)
  then obtain n where n: "int (length (concat segs)) = int n * (blocksize s * channels s * 2)"
    "0.3 * real_of_int (samplerate s) * real (length segs) \<le> real n * real_of_int (blocksize s)"
    by auto
  from Cons.prems obtain m where m: "int (length seg) = int m * (blocksize s * channels s * 2)"
    "0.3 * real_of_int (samplerate s) \<le> real m * real_of_int (blocksize s)"
    by (auto simp: seg_ok_def)
  show ?case
  proof (rule exI [of _ "m + n"], intro conjI)
    show "int (length (concat (seg # segs))) = int (m + n) * (blocksize s * channels s * 2)"
      using n(1) m(1) by (simp add: algebra_simps)
    show "0.3 * real_of_int (samplerate s) * real (length (seg # segs))
        \<le> real (m + n) * real_of_int (blocksize s)"
      using n(2) m(2) by (simp add: algebra_simps)
  qed
qed

lemma mono_length:
  assumes "int (length xs) = int n * (bs * ch * 2)" and "1 \<le> ch" and "0 < bs"
  shows "real n * real_of_int bs * 2 \<le> real (length (stereo_to_mono ch xs))"
proof (cases "ch = 2")
  case True
  then have len: "int (length xs) = 4 * (int n * bs)"
    using assms by simp
  then have "int (length xs) div 4 = int n * bs" by simp
  then have l4: "int (length xs div 4) = int n * bs"
    by (simp add: zdiv_int)
  have "even (length xs)" "even (length xs div 2)"
    using len by presburger+
  then have "stereo_to_mono ch xs = left_channel xs"
    using True by (simp add: stereo_to_mono_def)
  then have "int (length (stereo_to_mono ch xs)) = 2 * (int n * bs)"
    using l4 by (simp add: length_left_channel)
  then have "real_of_int (int (length (stereo_to_mono ch xs))) = real_of_int (2 * (int n * bs))"
    by simp
  then show ?thesis by simp
next
  case False
  have "even (int (length xs))" using assms(1) by simp
  then have "even (length xs)" by simp
  then have "stereo_to_mono ch xs = xs"
    using False by (simp add: stereo_to_mono_def)
  moreover have "int n * bs * 2 * 1 \<le> int n * bs * 2 * ch"
    using assms(2,3) by (intro mult_left_mono) simp_all
  then have "int n * bs * 2 \<le> int (length xs)"
    using assms(1) by (simp add: algebra_simps)
  then have "real_of_int (int n * bs * 2) \<le> real_of_int (int (length xs))"
    by linarith
  ultimately show ?thesis by simp
qed

lemma segments_duration:
  assumes "\<forall>seg \<in> set segs. seg_ok s seg" and "0 < samplerate s" and "0 < blocksize s"
    and "1 \<le> channels s"
  shows "0.3 * real (length segs)
     \<le> real (length (stereo_to_mono (channels s) (concat segs))) / (real_of_int (samplerate s) * 2)"
proof -
  obtain n where n: "int (length (concat segs)) = int n * (blocksize s * channels s * 2)"
    "0.3 * real_of_int (samplerate s) * real (length segs) \<le> real n * real_of_int (blocksize s)"
    using concat_segs [OF assms(1)] by blast
  have "real n * real_of_int (blocksize s) * 2
      \<le> real (length (stereo_to_mono (channels s) (concat segs)))"
    using mono_length [OF n(1) assms(4) assms(3)] .
  then have "0.3 * real (length segs) * (real_of_int (samplerate s) * 2)
      \<le> real (length (stereo_to_mono (channels s) (concat segs)))"
    using n(2) by (simp add: algebra_simps)
  then show ?thesis
    using assms(2) by (simp add: field_simps)
qed

lemma pss_config [simp]:
  "samplerate (process_speech_segments ok s) = samplerate s"
  "blocksize (process_speech_segments ok s) = blocksize s"
  "channels (process_speech_segments ok s) = channels s"
  "audio_buffer (process_speech_segments ok s) = audio_buffer s"
  by (simp_all add: process_speech_segments_def Let_def)

lemma ceor_config [simp]:
  "samplerate (check_end_of_recording s w) = samplerate s"
  "blocksize (check_end_of_recording s w) = blocksize s"
  "channels (check_end_of_recording s w) = channels s"
  "audio_buffer (check_end_of_recording s w) = audio_buffer s"
  by (simp_all add: check_end_of_recording_def Let_def)

lemma step_config:
  "samplerate (step s e) = samplerate s \<and> blocksize (step s e) = blocksize s
   \<and> channels (step s e) = channels s"
proof (cases e)
  case (Audio d w)
  then show ?thesis
    by (auto simp: audio_callback_def process_audio_buffer_def speech_window_def
        silence_window_def Let_def split: sum.splits if_splits option.splits)
qed (simp_all add: resume_recording_def pause_recording_def Let_def)

lemma run_config:
  "samplerate (run s es) = samplerate s \<and> blocksize (run s es) = blocksize s
   \<and> channels (run s es) = channels s"
proof (induction es rule: rev_induct)
  case Nil
  show ?case by (simp add: run_def)
next
  case (snoc e es)
  then show ?case using step_config [of "run s es" e] by (simp add: run_snoc)
qed

lemma pss_queue:
  assumes "\<forall>seg \<in> set (speech_segments s). seg_ok s seg"
    and "actual_speech_duration s \<le> 0.3 * real (length (speech_segments s))"
    and "\<forall>it \<in> set (asr_queue s). item_ok (samplerate s) it"
    and "0 < samplerate s" and "0 < blocksize s" and "1 \<le> channels s"
  shows "\<forall>it \<in> set (asr_queue (process_speech_segments ok s)). item_ok (samplerate s) it"
proof -
  have "actual_speech_duration s
      \<le> real (length (stereo_to_mono (channels s) (concat (speech_segments s))))
          / (real_of_int (samplerate s) * 2)"
    using segments_duration [OF assms(1) assms(4) assms(5) assms(6)] assms(2) by linarith
  then show ?thesis
    using assms(3) by (auto simp: process_speech_segments_def Let_def)
qed

lemma ceor_inv:
  assumes "duration_inv s" and "0 < samplerate s" and "0 < blocksize s" and "1 \<le> channels s"
  shows "duration_inv (check_end_of_recording s w)"
proof (cases "is_recording_speech s \<and> current_time w - last_active_time s > silence_timeout s
               \<and> \<not> is_processing s")
  case False
  then show ?thesis using assms(1) by (auto simp: check_end_of_recording_def)
next
  case True
  let ?p = "s\<lparr>is_paused := True, show_standby_status := False\<rparr>"
  have segs: "\<forall>seg \<in> set (speech_segments ?p). seg_ok ?p seg"
    using assms(1) True by (simp add: duration_inv_def seg_ok_def)
  have dur: "actual_speech_duration ?p \<le> 0.3 * real (length (speech_segments ?p))"
    using assms(1) True by (simp add: duration_inv_def)
  have q: "\<forall>it \<in> set (asr_queue ?p). item_ok (samplerate ?p) it"
    using assms(1) by (simp add: duration_inv_def)
  have "\<forall>it \<in> set (asr_queue (process_speech_segments (save_ok w) ?p)). item_ok (samplerate ?p) it"
    using pss_queue [OF segs dur q] assms(2-4) by simp
  then have q': "\<forall>it \<in> set (asr_queue (process_speech_segments (save_ok w) ?p)). item_ok (samplerate s) it"
    by simp
  have b: "\<forall>b \<in> set (audio_buffer s). int (length b) = blocksize s * channels s * 2"
    using assms(1) by (simp add: duration_inv_def)
  have q0: "\<forall>it \<in> set (asr_queue s). item_ok (samplerate s) it"
    using assms(1) by (simp add: duration_inv_def)
  show ?thesis
    using True q' b q0
    by (simp add: check_end_of_recording_def Let_def duration_inv_def)
qed

lemma speech_window_inv:
  assumes "duration_inv s" and "seg_ok s raw"
  shows "case speech_window s raw w of Inl t \<Rightarrow> duration_inv t | Inr t \<Rightarrow> duration_inv t"
  using assms
  by (auto simp: speech_window_def Let_def duration_inv_def seg_ok_def algebra_simps)

lemma speech_window_config:
  "case speech_window s raw w of
     Inl t \<Rightarrow> samplerate t = samplerate s \<and> blocksize t = blocksize s \<and> channels t = channels s
   | Inr t \<Rightarrow> samplerate t = samplerate s \<and> blocksize t = blocksize s \<and> channels t = channels s"
  by (simp add: speech_window_def Let_def)

lemma silence_window_inv:
  assumes "duration_inv s" and "seg_ok s raw"
  shows "duration_inv (silence_window s raw)"
  using assms
  by (auto simp: silence_window_def Let_def duration_inv_def seg_ok_def algebra_simps)

lemma buffer_clear_inv: "duration_inv s \<Longrightarrow> duration_inv (s\<lparr>audio_buffer := []\<rparr>)"
  by (simp add: duration_inv_def seg_ok_def)

lemma raw_seg_ok:
  assumes "\<forall>b \<in> set bs. int (length b) = blocksize s * channels s * 2"
    and "0.3 * real_of_int (samplerate s) \<le> real (length bs) * real_of_int (blocksize s)"
  shows "seg_ok s (concat bs)"
proof -
  have "int (length (concat bs)) = int (length bs) * (blocksize s * channels s * 2)"
    using assms(1) by (induction bs) (simp_all add: algebra_simps)
  then show ?thesis
    unfolding seg_ok_def using assms(2) by blast
qed

lemma pab_inv:
  assumes "duration_inv s" and "0 < samplerate s" and "0 < blocksize s" and "1 \<le> channels s"
    and "0.3 * real_of_int (samplerate s) \<le> real (length (audio_buffer s)) * real_of_int (blocksize s)"
    and "process_audio_buffer s w = Some t"
  shows "duration_inv t"
proof (cases "is_paused s")
  case True
  then show ?thesis using assms by (simp add: process_audio_buffer_def)
next
  case False
  let ?raw = "concat (audio_buffer s)"
  have raw: "seg_ok s ?raw"
    using assms(1,5) by (intro raw_seg_ok) (simp_all add: duration_inv_def)
  show ?thesis
  proof (cases "is_speech_candidate w")
    case True
    show ?thesis
    proof (cases "speech_window s ?raw w")
      case (Inl u)
      then have "t = u" using assms(6) False True
        by (simp add: process_audio_buffer_def Let_def split: if_splits)
      then show ?thesis using speech_window_inv [OF assms(1) raw, of w] Inl by simp
    next
      case (Inr u)
      then have t: "t = (check_end_of_recording u w)\<lparr>audio_buffer := []\<rparr>"
        using assms(6) False True
        by (simp add: process_audio_buffer_def Let_def split: if_splits)
      have "duration_inv u" using speech_window_inv [OF assms(1) raw, of w] Inr by simp
      moreover have "0 < samplerate u" "0 < blocksize u" "1 \<le> channels u"
        using speech_window_config [of s ?raw w] Inr assms(2-4) by simp_all
      ultimately show ?thesis unfolding t by (intro buffer_clear_inv ceor_inv)
    qed
  next
    case nc: False
    then have t: "t = (check_end_of_recording (silence_window s ?raw) w)\<lparr>audio_buffer := []\<rparr>"
      using assms(6) False by (simp add: process_audio_buffer_def Let_def split: if_splits)
    have "duration_inv (silence_window s ?raw)"
      using silence_window_inv [OF assms(1) raw] .
    moreover have "0 < samplerate (silence_window s ?raw)" "0 < blocksize (silence_window s ?raw)"
      "1 \<le> channels (silence_window s ?raw)"
      using assms(2-4) by (simp_all add: silence_window_def Let_def)
    ultimately show ?thesis unfolding t by (intro buffer_clear_inv ceor_inv)
  qed
qed

lemma step_inv:
  assumes "duration_inv s" and "block_ok (blocksize s) (channels s) e" and "0 < samplerate s" and "0 < blocksize s"
    and "1 \<le> channels s"
  shows "duration_inv (step s e)"
proof (cases e)
  case (Audio d w)
  let ?s1 = "s\<lparr>audio_buffer := audio_buffer s @ [d]\<rparr>"
  have i1: "duration_inv ?s1"
    using assms(1,2) Audio by (simp add: duration_inv_def seg_ok_def)
  have pab: "duration_inv t"
    if "process_audio_buffer ?s1 w = Some t"
      and "0.3 \<le> real (length (audio_buffer ?s1)) * real_of_int (blocksize ?s1)
                    / real_of_int (samplerate ?s1)" for t
  proof -
    have "0.3 * real_of_int (samplerate ?s1)
        \<le> real (length (audio_buffer ?s1)) * real_of_int (blocksize ?s1)"
      using that(2) assms(3) by (simp add: field_simps)
    then show ?thesis
      using pab_inv [OF i1 _ _ _ _ that(1)] assms(3-5) by simp
  qed
  show ?thesis
    unfolding Audio step.simps audio_callback_def Let_def
    using assms(1) i1 pab by (auto simp: buffer_clear_inv split: option.splits)
next
  case Resume
  then show ?thesis using assms(1)
    by (simp add: resume_recording_def Let_def duration_inv_def seg_ok_def)
next
  case Pause
  then show ?thesis using assms(1)
    by (simp add: pause_recording_def duration_inv_def seg_ok_def)
next
  case Dequeue
  have "set (tl (asr_queue s)) \<subseteq> set (asr_queue s)"
    by (cases "asr_queue s") auto
  then show ?thesis using assms(1) Dequeue
    by (auto simp: duration_inv_def seg_ok_def)
qed

lemma run_inv:
  assumes "duration_inv s" and "\<forall>e \<in> set es. block_ok (blocksize s) (channels s) e" and "0 < samplerate s"
    and "0 < blocksize s" and "1 \<le> channels s"
  shows "duration_inv (run s es)"
  using assms(2)
proof (induction es rule: rev_induct)
  case Nil
  show ?case using assms(1) by (simp add: run_def)
next
  case (snoc e es)
  then have i: "duration_inv (run s es)" by simp
  have c: "samplerate (run s es) = samplerate s" "blocksize (run s es) = blocksize s"
    "channels (run s es) = channels s"
    using run_config [of s es] by simp_all
  have "block_ok (blocksize (run s es)) (channels (run s es)) e"
    using snoc.prems c by simp
  then show ?case
    using step_inv [OF i] c assms(3-5) by (simp add: run_snoc)
qed

text \<open>
  Claim C9. Blocks have the fixed size of \<open>blocksize\<close> frames of \<open>channels\<close> 16-bit samples.
  Then every entry that a run of the recorder leaves on the queue has a speech duration of at
  most its total duration, and the total duration is the number of mono bytes divided by
  \<open>samplerate * 2\<close>.
\<close>

theorem speech_le_total:
  assumes "0 < sr" and "0 < bs" and "1 \<le> ch"
    and "\<forall>e \<in> set es. block_ok bs ch e"
    and "Some (mono_audio, audio_length, speech)
           \<in> set (asr_queue (run (init_recorder sr ch bs st md asr qs loaded t0) es))"
  shows "speech \<le> audio_length
       \<and> audio_length = real (length mono_audio) / (real_of_int sr * 2)"
proof -
  let ?s0 = "init_recorder sr ch bs st md asr qs loaded t0"
  have "duration_inv ?s0"
    by (simp add: duration_inv_def init_recorder_def)
  moreover have "samplerate ?s0 = sr" "blocksize ?s0 = bs" "channels ?s0 = ch"
    by (simp_all add: init_recorder_def)
  ultimately have "duration_inv (run ?s0 es)"
    using run_inv [of ?s0 es] assms(1-4) by simp
  then have "\<forall>it \<in> set (asr_queue (run ?s0 es)). item_ok (samplerate (run ?s0 es)) it"
    by (simp add: duration_inv_def)
  then have "item_ok (samplerate (run ?s0 es)) (Some (mono_audio, audio_length, speech))"
    using assms(5) by blast
  moreover have "samplerate (run ?s0 es) = sr"
    using run_config [of ?s0 es] by (simp add: init_recorder_def)
  ultimately show ?thesis by simp
qed

theorem speech_le_total_witness:
  "(0::int) < 16000 \<and> (0::int) < 1024 \<and> (1::int) \<le> 2
   \<and> list_all (block_ok 1024 2) example_utterance
   \<and> Some (stereo_to_mono 2 (concat example_segments), 1.024, 0.6)
        \<in> set (asr_queue (run (init_recorder 16000 2 1024 1.5 0.5 True 20 True 0) example_utterance))
   \<and> (0.6::real) \<le> 1.024"
  using speech_le_total [where sr = 16000 and bs = 1024 and ch = 2 and es = example_utterance
      and st = "1.5" and md = "0.5" and asr = True and qs = 20 and loaded = True and ?t0.0 = 0
      and mono_audio = "stereo_to_mono 2 (concat example_segments)"
      and audio_length = "1.024" and speech = "0.6"]
  by (simp add: example_defs example_utterance_def example_segments_def stereo_to_mono_def
      length_left_channel)

subsection \<open>A full queue\<close>

text \<open>
  Claim C6. Handing a recording to a full queue returns the recorder with the queue as it
  was, the recording gone from \<open>speech_segments\<close> and \<open>dropped\<close> one higher; \<open>queued\<close> does not
  change. The function is total: there is no state in which it waits.
\<close>

theorem full_queue_drops:
  assumes "speech_segments s \<noteq> []" and "\<not> is_processing s" and "samplerate s \<noteq> 0"
    and "enable_asr s" and "has_recognizer s" and "queue_full s"
  shows "asr_queue (process_speech_segments ok s) = asr_queue s
       \<and> dropped (process_speech_segments ok s) = dropped s + 1
       \<and> queued (process_speech_segments ok s) = queued s
       \<and> speech_segments (process_speech_segments ok s) = []
       \<and> \<not> is_processing (process_speech_segments ok s)"
  using assms by (simp add: process_speech_segments_def Let_def)

theorem full_queue_drops_witness:
  "speech_segments ex_full \<noteq> [] \<and> \<not> is_processing ex_full \<and> samplerate ex_full \<noteq> 0
   \<and> enable_asr ex_full \<and> has_recognizer ex_full \<and> queue_full ex_full
   \<and> asr_queue (process_speech_segments True ex_full) = asr_queue ex_full
   \<and> dropped (process_speech_segments True ex_full) = 1"
  using full_queue_drops [of ex_full True]
  by (simp add: ex_full_def init_recorder_def queue_full_def)


section \<open>Properties of the recording cache\<close>

subsection \<open>Lookup by text\<close>

lemma str_contains_sublist: "str_contains needle hay \<longleftrightarrow> sublist needle hay"
  by (induction hay) (auto simp: sublist_Cons_right)

lemma find_loop_filter:
  "find_loop env c query items results
     = results @ map (found_of c) (filter (matches env c query) items)"
proof (induction items arbitrary: results)
  case Nil
  show ?case by simp
next
  case (Cons item items)
  obtain hash_key file_info where item: "item = (hash_key, file_info)"
    by (cases item)
  have m: "matches env c query item \<longleftrightarrow>
      str_contains (str_lower env query) (str_lower env (entry_text file_info))
      \<and> path_of c (filename file_info) \<in> disk c"
    by (simp add: matches_def item str_contains_sublist sublist_def)
  show ?case
    unfolding item find_loop.simps Cons.IH
    using m by (simp add: item found_of_def)
qed

lemma remove_oldest_fields:
  "recording_cache_dir (snd (remove_oldest env n items c)) = recording_cache_dir c
   \<and> max_cache_files (snd (remove_oldest env n items c)) = max_cache_files c
   \<and> save_recordings (snd (remove_oldest env n items c)) = save_recordings c"
  by (induction env n items c rule: remove_oldest.induct) (simp_all add: Let_def)

lemma remove_oldest_ok:
  assumes "\<forall>p. \<not> unlink_raises env p" and "n \<le> length items"
  shows "fst (remove_oldest env n items c) = False
       \<and> recording_cache_index (snd (remove_oldest env n items c))
           = filter (\<lambda>kv. fst kv \<notin> fst ` set (take n items)) (recording_cache_index c)
       \<and> disk (snd (remove_oldest env n items c))
           = disk c - (\<lambda>kv. path_of c (filename (snd kv))) ` set (take n items)"
  using assms
proof (induction env n items c rule: remove_oldest.induct)
  case (1 env sorted_items c)
  show ?case by simp
next
  case (2 env n c)
  then show ?case by simp
next
  case (3 env n hash_key file_info sorted_items c)
  let ?c = "c\<lparr>disk := disk c - {path_of c (filename file_info)},
              recording_cache_index := AList.delete hash_key (recording_cache_index c)\<rparr>"
  have le: "n \<le> length sorted_items" using 3 by simp
  have nr: "\<forall>p. \<not> unlink_raises env p" using 3 by simp
  have p: "path_of ?c = path_of c" by (simp add: path_of_def fun_eq_iff)
  have r: "remove_oldest env (Suc n) ((hash_key, file_info) # sorted_items) c
      = remove_oldest env n sorted_items ?c"
    using nr by (simp add: Let_def)
  have ih: "fst (remove_oldest env n sorted_items ?c) = False
       \<and> recording_cache_index (snd (remove_oldest env n sorted_items ?c))
           = filter (\<lambda>kv. fst kv \<notin> fst ` set (take n sorted_items)) (recording_cache_index ?c)
       \<and> disk (snd (remove_oldest env n sorted_items ?c))
           = disk ?c - (\<lambda>kv. path_of ?c (filename (snd kv))) ` set (take n sorted_items)"
    using 3(2) [OF refl] nr le by simp
  show ?case
    unfolding r using ih unfolding p
    by (auto simp: AList.delete_eq filter_filter intro: filter_cong)
qed

lemma str_int_examples: "str_int 100 = ''100''" "str_int 101 = ''101''" "str_int 200 = ''200''"
  by (simp_all add: str_int_def digits.simps)

lemmas cache_example_defs = save_recording_file_def example_env_def locked_env_def
  example_cache_def example_recorder_def init_recorder_def Let_def get_recording_hash_def
  example_md5_def path_of_def str_int_examples cleanup_recording_cache_def
  example_calls_def same_audio_calls_def new_entry_def init_recording_cache_def
  lookup_cache_def

text \<open>
  Claim C10. \<open>find_recording_by_text\<close> returns, in the order of the index, one dictionary
  for each index item whose text contains the query after both went through \<open>str.lower\<close> and
  whose file exists; an item that matches but whose file is gone is left out, and so is every
  item that does not match.
\<close>

theorem find_by_text_exact:
  "find_recording_by_text env c query
     = map (found_of c) (filter (matches env c query) (recording_cache_index c))"
  by (simp add: find_recording_by_text_def find_loop_filter)

theorem find_by_text_exact_witness:
  "find_recording_by_text example_env lookup_cache ''HELLO''
     = [\<lparr> found_hash = ''6264a30ebd7d7c8e62f4981f64601d33'',
           found_file_path = ''recording_cache/rec_100_6264a30e.wav'',
           found_text = ''Hello there'', found_created = 100,
           found_duration = 1 / 16000 \<rparr>]
   \<and> map (found_of lookup_cache)
         (filter (matches example_env lookup_cache ''HELLO'') (recording_cache_index lookup_cache))
     = [\<lparr> found_hash = ''6264a30ebd7d7c8e62f4981f64601d33'',
           found_file_path = ''recording_cache/rec_100_6264a30e.wav'',
           found_text = ''Hello there'', found_created = 100,
           found_duration = 1 / 16000 \<rparr>]"
  using find_by_text_exact [of example_env lookup_cache "''HELLO''"]
  by (simp add: find_recording_by_text_def cache_example_defs ascii_lower_def)

subsection \<open>Eviction\<close>

lemma sorted_take_drop:
  assumes "sorted (map f xs)" and "x \<in> set (take n xs)" and "y \<in> set (drop n xs)"
  shows "f x \<le> f y"
proof -
  have "sorted (map f (take n xs) @ map f (drop n xs))"
    using assms(1) by (simp flip: map_append)
  then show ?thesis
    using assms(2,3) by (auto simp: sorted_append)
qed

lemma distinct_keys_drop:
  assumes "distinct (map fst xs)"
  shows "filter (\<lambda>kv. fst kv \<notin> fst ` set (take n xs)) xs = drop n xs"
proof -
  have d: "distinct (map fst (take n xs) @ map fst (drop n xs))"
    using assms by (simp flip: map_append)
  then have disj: "fst ` set (take n xs) \<inter> fst ` set (drop n xs) = {}"
    by simp
  have "filter (\<lambda>kv. fst kv \<notin> fst ` set (take n xs)) (take n xs @ drop n xs) = drop n xs"
    unfolding filter_append using disj by (auto simp: filter_empty_conv filter_id_conv)
  then show ?thesis by simp
qed

lemma filter_keys_perm:
  assumes "mset xs = mset ys"
  shows "mset (filter P xs) = mset (filter P ys)"
  using assms by (metis mset_filter)

lemma cleanup_spec:
  assumes nr: "\<forall>p. \<not> unlink_raises env p"
    and d: "distinct (map fst (recording_cache_index c))"
    and m: "0 \<le> max_cache_files c"
  shows "fst (cleanup_recording_cache env c) = False
       \<and> int (length (recording_cache_index (snd (cleanup_recording_cache env c)))) \<le> max_cache_files c
       \<and> distinct (map fst (recording_cache_index (snd (cleanup_recording_cache env c))))
       \<and> set (recording_cache_index (snd (cleanup_recording_cache env c))) \<subseteq> set (recording_cache_index c)
       \<and> (\<forall>old \<in> set (recording_cache_index c) - set (recording_cache_index (snd (cleanup_recording_cache env c))).
            \<forall>kept \<in> set (recording_cache_index (snd (cleanup_recording_cache env c))).
              created (snd old) \<le> created (snd kept))
       \<and> max_cache_files (snd (cleanup_recording_cache env c)) = max_cache_files c
       \<and> recording_cache_dir (snd (cleanup_recording_cache env c)) = recording_cache_dir c
       \<and> save_recordings (snd (cleanup_recording_cache env c)) = save_recordings c
       \<and> disk (snd (cleanup_recording_cache env c)) \<subseteq> disk c"
proof (cases "int (length (recording_cache_index c)) \<le> max_cache_files c")
  case True
  then show ?thesis using d by (simp add: cleanup_recording_cache_def)
next
  case False
  let ?idx = "recording_cache_index c"
  let ?srt = "sort_key (\<lambda>x. created (snd x)) ?idx"
  let ?n = "nat (int (length ?idx) - max_cache_files c)"
  let ?r = "remove_oldest env ?n ?srt c"
  have cl: "cleanup_recording_cache env c = ?r"
    using False by (simp add: cleanup_recording_cache_def Let_def)
  have n: "?n \<le> length ?srt" using m by simp
  have ro: "fst ?r = False"
    "recording_cache_index (snd ?r) = filter (\<lambda>kv. fst kv \<notin> fst ` set (take ?n ?srt)) ?idx"
    "disk (snd ?r) = disk c - (\<lambda>kv. path_of c (filename (snd kv))) ` set (take ?n ?srt)"
    using remove_oldest_ok [OF nr n, of c] by simp_all
  have ms: "mset ?srt = mset ?idx" by simp
  have ds: "distinct (map fst ?srt)"
    using d ms by (metis mset_map mset_eq_imp_distinct_iff)
  have fs: "filter (\<lambda>kv. fst kv \<notin> fst ` set (take ?n ?srt)) ?srt = drop ?n ?srt"
    using distinct_keys_drop [OF ds] .
  have mk: "mset (recording_cache_index (snd ?r)) = mset (drop ?n ?srt)"
    unfolding ro(2) using filter_keys_perm [OF ms [symmetric]] fs by metis
  then have len: "length (recording_cache_index (snd ?r)) = length (drop ?n ?srt)"
    by (metis size_mset)
  have setk: "set (recording_cache_index (snd ?r)) = set (drop ?n ?srt)"
    using mk by (metis mset_eq_setD)
  have srt: "sorted (map (\<lambda>x. created (snd x)) ?srt)"
    by simp
  have ord: "created (snd old) \<le> created (snd kept)"
    if "old \<in> set ?idx - set (recording_cache_index (snd ?r))"
      and "kept \<in> set (recording_cache_index (snd ?r))" for old kept
  proof -
    have "old \<in> set ?srt" using that(1) by simp
    then have "old \<in> set (take ?n ?srt) \<or> old \<in> set (drop ?n ?srt)"
      by (metis Un_iff append_take_drop_id set_append)
    then have "old \<in> set (take ?n ?srt)"
      using that(1) setk by blast
    moreover have "kept \<in> set (drop ?n ?srt)" using that(2) setk by simp
    ultimately show ?thesis
      using sorted_take_drop [OF srt] by blast
  qed
  have "int (length (recording_cache_index (snd ?r))) \<le> max_cache_files c"
    using len m False by simp
  moreover have "distinct (map fst (recording_cache_index (snd ?r)))"
    unfolding ro(2) using d by (simp add: distinct_map_filter)
  moreover have "set (recording_cache_index (snd ?r)) \<subseteq> set ?idx"
    unfolding ro(2) by auto
  moreover have "disk (snd ?r) \<subseteq> disk c" unfolding ro(3) by auto
  ultimately show ?thesis
    unfolding cl using ro(1) ord remove_oldest_fields [of env ?n ?srt c] by blast
qed

lemma remove_oldest_shrinks:
  assumes "distinct (map fst (recording_cache_index c))"
  shows "distinct (map fst (recording_cache_index (snd (remove_oldest env n items c))))
       \<and> set (recording_cache_index (snd (remove_oldest env n items c))) \<subseteq> set (recording_cache_index c)
       \<and> disk (snd (remove_oldest env n items c)) \<subseteq> disk c"
  using assms
proof (induction env n items c rule: remove_oldest.induct)
  case (3 env n hash_key file_info sorted_items c)
  let ?c = "c\<lparr>disk := disk c - {path_of c (filename file_info)},
              recording_cache_index := AList.delete hash_key (recording_cache_index c)\<rparr>"
  have d: "distinct (map fst (recording_cache_index ?c))"
    using 3(3) by (simp add: AList.distinct_delete)
  have s: "set (recording_cache_index ?c) \<subseteq> set (recording_cache_index c)" "disk ?c \<subseteq> disk c"
    by (auto simp: AList.delete_eq)
  show ?case
  proof (cases "path_of c (filename file_info) \<in> disk c
                \<and> unlink_raises env (path_of c (filename file_info))")
    case True
    then show ?thesis using 3(1) [OF refl True] 3(3) by (simp add: Let_def)
  next
    case False
    then have "remove_oldest env (Suc n) ((hash_key, file_info) # sorted_items) c
        = remove_oldest env n sorted_items ?c"
      by (auto simp: Let_def)
    then show ?thesis using 3(2) [OF refl False d] s by auto
  qed
qed simp_all

lemma cleanup_shrinks:
  assumes "distinct (map fst (recording_cache_index c))"
  shows "distinct (map fst (recording_cache_index (snd (cleanup_recording_cache env c))))
       \<and> set (recording_cache_index (snd (cleanup_recording_cache env c))) \<subseteq> set (recording_cache_index c)
       \<and> disk (snd (cleanup_recording_cache env c)) \<subseteq> disk c
       \<and> recording_cache_dir (snd (cleanup_recording_cache env c)) = recording_cache_dir c
       \<and> max_cache_files (snd (cleanup_recording_cache env c)) = max_cache_files c
       \<and> save_recordings (snd (cleanup_recording_cache env c)) = save_recordings c"
  using remove_oldest_shrinks [OF assms] remove_oldest_fields assms
  by (simp add: cleanup_recording_cache_def Let_def)

lemma set_update_distinct:
  "distinct (map fst al) \<Longrightarrow>
     set (AList.update k v al) = insert (k, v) {p \<in> set al. fst p \<noteq> k}"
  by (induction al) (auto simp: image_iff)

lemma put_cases:
  assumes "save_recording_file env t ok s c audio txt = (r, c')"
  obtains (unchanged) "r = None" and "recording_cache_index c' = recording_cache_index c"
      and "disk c' \<subseteq> insert (path_of c (file_name_of env t audio)) (disk c)"
      and "recording_cache_dir c' = recording_cache_dir c"
      and "max_cache_files c' = max_cache_files c" and "save_recordings c' = save_recordings c"
  | (stored) c2 where
      "recording_cache_index c2 = AList.update (get_recording_hash env audio)
          (new_entry t (file_name_of env t audio) s audio txt) (recording_cache_index c)"
      and "disk c2 \<subseteq> insert (path_of c (file_name_of env t audio)) (disk c)"
      and "recording_cache_dir c2 = recording_cache_dir c"
      and "max_cache_files c2 = max_cache_files c" and "save_recordings c2 = save_recordings c"
      and "recording_cache_index c' = recording_cache_index (snd (cleanup_recording_cache env c2))"
      and "disk c' = disk (snd (cleanup_recording_cache env c2))"
      and "recording_cache_dir c' = recording_cache_dir (snd (cleanup_recording_cache env c2))"
      and "max_cache_files c' = max_cache_files (snd (cleanup_recording_cache env c2))"
      and "save_recordings c' = save_recordings (snd (cleanup_recording_cache env c2))"
      and "r = (if fst (cleanup_recording_cache env c2) then None
                else Some (path_of c (file_name_of env t audio)))"
proof -
  let ?p = "path_of c (file_name_of env t audio)"
  let ?c1 = "c\<lparr>disk := (if has_recognizer s then insert ?p (disk c) else disk c)\<rparr>"
  let ?c2 = "?c1\<lparr>recording_cache_index := AList.update (get_recording_hash env audio)
      (new_entry t (file_name_of env t audio) s audio txt) (recording_cache_index ?c1)\<rparr>"
  have eq: "save_recording_file env t ok s c audio txt =
      (if \<not> save_recordings c then (None, c)
       else if has_recognizer s \<and> \<not> ok then (None, c)
       else if samplerate s = 0 then (None, ?c1)
       else case cleanup_recording_cache env ?c2 of
              (True, c3) \<Rightarrow> (None, c3)
            | (False, c3) \<Rightarrow>
                (Some ?p,
                 c3\<lparr>total_recordings := total_recordings c3 + 1,
                    successful_recognitions :=
                      (if truthy txt then successful_recognitions c3 + 1
                       else successful_recognitions c3),
                    cached_files := length (recording_cache_index c3)\<rparr>))"
    unfolding save_recording_file_def Let_def file_name_of_def new_entry_def
    by (cases "has_recognizer s") simp_all
  consider "\<not> save_recordings c" | "save_recordings c" "has_recognizer s \<and> \<not> ok"
    | "save_recordings c" "\<not> (has_recognizer s \<and> \<not> ok)" "samplerate s = 0"
    | "save_recordings c" "\<not> (has_recognizer s \<and> \<not> ok)" "samplerate s \<noteq> 0"
    by blast
  then show thesis
  proof cases
    case 1
    then have "r = None" "c' = c" using assms eq by simp_all
    then show ?thesis using unchanged by auto
  next
    case 2
    then have "r = None" "c' = c" using assms eq by simp_all
    then show ?thesis using unchanged by auto
  next
    case 3
    then have "r = None" "c' = ?c1" using assms eq by (auto split: if_splits)
    then show ?thesis by (intro unchanged) auto
  next
    case 4
    obtain b c3 where cl: "cleanup_recording_cache env ?c2 = (b, c3)"
      by (cases "cleanup_recording_cache env ?c2")
    have rc: "(r, c') = (if b then (None, c3)
         else (Some ?p,
                 c3\<lparr>total_recordings := total_recordings c3 + 1,
                    successful_recognitions :=
                      (if truthy txt then successful_recognitions c3 + 1
                       else successful_recognitions c3),
                    cached_files := length (recording_cache_index c3)\<rparr>))"
      using assms eq 4 cl by (cases b) (auto split: if_splits)
    show ?thesis
    proof (rule stored [of ?c2])
      show "r = (if fst (cleanup_recording_cache env ?c2) then None else Some ?p)"
        using rc cl by (cases b) simp_all
    qed (use rc cl in \<open>cases b; auto\<close>)+
  qed
qed

lemma put_frame:
  assumes "distinct (map fst (recording_cache_index c))"
    and "save_recording_file env t ok s c audio txt = (r, c')"
  shows "distinct (map fst (recording_cache_index c'))
       \<and> fst ` set (recording_cache_index c')
            \<subseteq> insert (get_recording_hash env audio) (fst ` set (recording_cache_index c))
       \<and> disk c' \<subseteq> insert (path_of c (file_name_of env t audio)) (disk c)
       \<and> recording_cache_dir c' = recording_cache_dir c
       \<and> max_cache_files c' = max_cache_files c
       \<and> save_recordings c' = save_recordings c
       \<and> (r \<noteq> None \<longrightarrow> r = Some (path_of c (file_name_of env t audio)))"
  using assms(2)
proof (cases rule: put_cases)
  case unchanged
  then show ?thesis using assms(1) by auto
next
  case (stored c2)
  have d2: "distinct (map fst (recording_cache_index c2))"
    using assms(1) stored(1) by (simp add: AList.distinct_update)
  have k2: "fst ` set (recording_cache_index c2)
      = insert (get_recording_hash env audio) (fst ` set (recording_cache_index c))"
    using stored(1) by (simp add: AList.dom_update)
  have sh: "distinct (map fst (recording_cache_index (snd (cleanup_recording_cache env c2))))"
    "set (recording_cache_index (snd (cleanup_recording_cache env c2))) \<subseteq> set (recording_cache_index c2)"
    "disk (snd (cleanup_recording_cache env c2)) \<subseteq> disk c2"
    "recording_cache_dir (snd (cleanup_recording_cache env c2)) = recording_cache_dir c2"
    "max_cache_files (snd (cleanup_recording_cache env c2)) = max_cache_files c2"
    "save_recordings (snd (cleanup_recording_cache env c2)) = save_recordings c2"
    using cleanup_shrinks [OF d2, of env] by simp_all
  have "fst ` set (recording_cache_index c') \<subseteq> fst ` set (recording_cache_index c2)"
    using sh(2) stored(6) by (simp add: image_mono)
  then have "fst ` set (recording_cache_index c')
      \<subseteq> insert (get_recording_hash env audio) (fst ` set (recording_cache_index c))"
    using k2 by simp
  moreover have "disk c' \<subseteq> insert (path_of c (file_name_of env t audio)) (disk c)"
    using sh(3) stored(2,7) by auto
  ultimately show ?thesis
    using sh stored by (simp split: if_splits)
qed

lemma put_bound:
  assumes nr: "\<forall>p. \<not> unlink_raises env p"
    and d: "distinct (map fst (recording_cache_index c))"
    and m: "0 \<le> max_cache_files c"
    and b: "int (length (recording_cache_index c)) \<le> max_cache_files c"
    and p: "save_recording_file env t ok s c audio txt = (r, c')"
  shows "int (length (recording_cache_index c')) \<le> max_cache_files c'"
  using p
proof (cases rule: put_cases)
  case unchanged
  then show ?thesis using b by simp
next
  case (stored c2)
  have d2: "distinct (map fst (recording_cache_index c2))"
    using d stored(1) by (simp add: AList.distinct_update)
  have m2: "0 \<le> max_cache_files c2" using m stored(4) by simp
  show ?thesis
    using cleanup_spec [OF nr d2 m2] stored by simp
qed

lemma put_all_bound:
  assumes "\<forall>p. \<not> unlink_raises env p"
    and "distinct (map fst (recording_cache_index c))"
    and "0 \<le> max_cache_files c"
    and "int (length (recording_cache_index c)) \<le> max_cache_files c"
  shows "int (length (recording_cache_index (put_all env c calls))) \<le> max_cache_files c
       \<and> max_cache_files (put_all env c calls) = max_cache_files c
       \<and> distinct (map fst (recording_cache_index (put_all env c calls)))"
  using assms(2-4)
proof (induction calls arbitrary: c)
  case Nil
  then show ?case by simp
next
  case (Cons call calls)
  obtain t ok s audio tx where call: "call = (t, ok, s, audio, tx)"
    by (cases call)
  obtain r c' where p: "save_recording_file env t ok s c audio tx = (r, c')"
    by (cases "save_recording_file env t ok s c audio tx")
  have f: "distinct (map fst (recording_cache_index c'))" "max_cache_files c' = max_cache_files c"
    using put_frame [OF Cons.prems(1) p] by simp_all
  have b: "int (length (recording_cache_index c')) \<le> max_cache_files c'"
    using put_bound [OF assms(1) Cons.prems(1) Cons.prems(2) Cons.prems(3) p] .
  show ?case
    using Cons.IH [of c'] f b Cons.prems(2) by (simp add: call p)
qed

lemma put_evicts_oldest:
  assumes nr: "\<forall>p. \<not> unlink_raises env p"
    and d: "distinct (map fst (recording_cache_index c))"
    and m: "0 \<le> max_cache_files c"
    and p: "save_recording_file env t ok s c audio txt = (Some path, c')"
  shows "(\<forall>old \<in> set (recording_cache_index c).
            fst old \<noteq> get_recording_hash env audio \<and> old \<notin> set (recording_cache_index c') \<longrightarrow>
            (\<forall>kept \<in> set (recording_cache_index c'). created (snd old) \<le> created (snd kept)))
       \<and> (get_recording_hash env audio \<notin> fst ` set (recording_cache_index c') \<longrightarrow>
            (\<forall>kept \<in> set (recording_cache_index c'). t \<le> created (snd kept)))"
  using p
proof (cases rule: put_cases)
  case unchanged
  then show ?thesis by simp
next
  case (stored c2)
  let ?h = "get_recording_hash env audio"
  let ?e = "new_entry t (file_name_of env t audio) s audio txt"
  let ?c3 = "snd (cleanup_recording_cache env c2)"
  have d2: "distinct (map fst (recording_cache_index c2))"
    using d stored(1) by (simp add: AList.distinct_update)
  have m2: "0 \<le> max_cache_files c2" using m stored(4) by simp
  have s2: "set (recording_cache_index c2)
      = insert (?h, ?e) {p \<in> set (recording_cache_index c). fst p \<noteq> ?h}"
    using set_update_distinct [OF d] stored(1) by simp
  have ord: "\<forall>old \<in> set (recording_cache_index c2) - set (recording_cache_index ?c3).
      \<forall>kept \<in> set (recording_cache_index ?c3). created (snd old) \<le> created (snd kept)"
    using cleanup_spec [OF nr d2 m2] by (elim conjE)
  have sub: "set (recording_cache_index ?c3) \<subseteq> set (recording_cache_index c2)"
    using cleanup_spec [OF nr d2 m2] by (elim conjE)
  have i: "recording_cache_index c' = recording_cache_index ?c3" using stored(6) .
  have ce: "created ?e = t" by (simp add: new_entry_def)
  show ?thesis
  proof (intro conjI ballI impI)
    fix old kept
    assume "old \<in> set (recording_cache_index c)"
      and "fst old \<noteq> ?h \<and> old \<notin> set (recording_cache_index c')"
      and "kept \<in> set (recording_cache_index c')"
    then show "created (snd old) \<le> created (snd kept)"
      using ord s2 i by auto
  next
    fix kept
    assume a: "?h \<notin> fst ` set (recording_cache_index c')"
      and k: "kept \<in> set (recording_cache_index c')"
    have "(?h, ?e) \<notin> set (recording_cache_index ?c3)"
      using a i by force
    then have "(?h, ?e) \<in> set (recording_cache_index c2) - set (recording_cache_index ?c3)"
      using s2 by simp
    then have "created (snd (?h, ?e)) \<le> created (snd kept)"
      using ord k i by metis
    then show "t \<le> created (snd kept)" using ce by simp
  qed
qed

text \<open>
  Claim C5, as amended. Let no deletion of a file raise and let \<open>max_cache_files\<close> be at
  least zero. Then the constructor succeeds on any loaded index, the index it leaves has at most
  \<open>max_cache_files\<close> entries, every loaded entry it evicted is at most as recent as every
  entry it kept, and after any sequence of calls of \<open>_save_recording_file\<close> the index still has
  at most \<open>max_cache_files\<close> entries. Every call that returns a path evicts only entries that
  are at most as recent as all the entries it keeps, the new entry included.
\<close>

theorem cache_bound:
  assumes "\<forall>p. \<not> unlink_raises env p" and "0 \<le> maxf" and "distinct (map fst loaded)"
  shows "\<exists>c0. init_recording_cache env save dir maxf loaded files = Some c0
          \<and> int (length (recording_cache_index c0)) \<le> maxf
          \<and> (\<forall>old \<in> set loaded - set (recording_cache_index c0).
                \<forall>kept \<in> set (recording_cache_index c0). created (snd old) \<le> created (snd kept))
          \<and> int (length (recording_cache_index (put_all env c0 calls))) \<le> maxf
          \<and> (\<forall>c t ok s audio txt path c'.
                distinct (map fst (recording_cache_index c)) \<and> 0 \<le> max_cache_files c
                \<and> save_recording_file env t ok s c audio txt = (Some path, c') \<longrightarrow>
                (\<forall>old \<in> set (recording_cache_index c).
                   fst old \<noteq> get_recording_hash env audio \<and> old \<notin> set (recording_cache_index c') \<longrightarrow>
                   (\<forall>kept \<in> set (recording_cache_index c'). created (snd old) \<le> created (snd kept)))
                \<and> (get_recording_hash env audio \<notin> fst ` set (recording_cache_index c') \<longrightarrow>
                     (\<forall>kept \<in> set (recording_cache_index c'). t \<le> created (snd kept))))"
proof -
  let ?c = "\<lparr> save_recordings = save, recording_cache_dir = dir, max_cache_files = maxf,
                recording_cache_index = loaded, disk = files, total_recordings = 0,
                successful_recognitions = 0, failed_recognitions = 0,
                cached_files = length loaded \<rparr>"
  let ?ci = "snd (cleanup_recording_cache env ?c)"
  have d: "distinct (map fst (recording_cache_index ?c))" using assms(3) by simp
  have m: "0 \<le> max_cache_files ?c" using assms(2) by simp
  note cs0 = cleanup_spec [OF assms(1) d m]
  note cs = cs0 [THEN conjunct1] cs0 [THEN conjunct2, THEN conjunct1]
    cs0 [THEN conjunct2, THEN conjunct2, THEN conjunct1]
    cs0 [THEN conjunct2, THEN conjunct2, THEN conjunct2, THEN conjunct1]
    cs0 [THEN conjunct2, THEN conjunct2, THEN conjunct2, THEN conjunct2, THEN conjunct1]
    cs0 [THEN conjunct2, THEN conjunct2, THEN conjunct2, THEN conjunct2, THEN conjunct2, THEN conjunct1]
  have nochange: "cleanup_recording_cache env ?c = (False, ?c)"
    if "int (length loaded) \<le> maxf"
    using that by (simp add: cleanup_recording_cache_def)
  have init: "init_recording_cache env save dir maxf loaded files = Some ?ci"
  proof (cases "int (length loaded) \<le> maxf")
    case True
    then show ?thesis using nochange by (simp add: init_recording_cache_def Let_def)
  next
    case False
    obtain b c1 where cl: "cleanup_recording_cache env ?c = (b, c1)"
      by (cases "cleanup_recording_cache env ?c")
    then have "b = False" using cs(1) by simp
    then show ?thesis using False cl by (simp add: init_recording_cache_def Let_def)
  qed
  have b0: "int (length (recording_cache_index ?ci)) \<le> maxf" using cs(2) by simp
  have d0: "distinct (map fst (recording_cache_index ?ci))" using cs(3) .
  have m0: "max_cache_files ?ci = maxf" using cs(6) by simp
  have o0: "\<forall>old \<in> set loaded - set (recording_cache_index ?ci).
                \<forall>kept \<in> set (recording_cache_index ?ci). created (snd old) \<le> created (snd kept)"
    using cs(5) by simp
  have pa: "int (length (recording_cache_index (put_all env ?ci calls))) \<le> maxf"
    using put_all_bound [OF assms(1) d0, of calls] b0 m0 assms(2) by simp
  show ?thesis
    apply (rule exI [of _ ?ci])
    apply (intro conjI allI impI)
        apply (rule init)
       apply (rule b0)
      apply (rule o0)
     apply (rule pa)
    subgoal for c t ok s audio tx path c'
      using put_evicts_oldest [OF assms(1), of c t ok s audio tx path c'] by blast
    subgoal for c t ok s audio tx path c'
      using put_evicts_oldest [OF assms(1), of c t ok s audio tx path c'] by blast
    done
qed

theorem cache_bound_witness:
  "(\<forall>p. \<not> unlink_raises example_env p) \<and> (0::int) \<le> 1
   \<and> distinct (map fst (recording_cache_index lookup_cache))
   \<and> map fst (recording_cache_index (the (init_recording_cache example_env True ''recording_cache'' 1
         (recording_cache_index lookup_cache) (disk lookup_cache))))
       = [''25daad3d9e60b45043a70c4ab7d3b1c6'']
   \<and> int (length (recording_cache_index (put_all example_env
         (the (init_recording_cache example_env True ''recording_cache'' 1
            (recording_cache_index lookup_cache) (disk lookup_cache))) example_calls))) \<le> 1"
proof -
  have nr: "\<forall>p. \<not> unlink_raises example_env p"
    by (simp add: example_env_def)
  have d: "distinct (map fst (recording_cache_index lookup_cache))"
    by (simp add: lookup_cache_def example_cache_def)
  have z: "(0::int) \<le> 1" by simp
  obtain c0 where c0:
    "init_recording_cache example_env True ''recording_cache'' 1
       (recording_cache_index lookup_cache) (disk lookup_cache) = Some c0"
    "int (length (recording_cache_index (put_all example_env c0 example_calls))) \<le> 1"
    using cache_bound [OF nr z d, of True "''recording_cache''" "disk lookup_cache" example_calls]
    by blast
  have k: "map fst (recording_cache_index (the (init_recording_cache example_env True
         ''recording_cache'' 1 (recording_cache_index lookup_cache) (disk lookup_cache))))
       = [''25daad3d9e60b45043a70c4ab7d3b1c6'']"
    by (simp add: cache_example_defs numeral_2_eq_2)
  show ?thesis
    using nr d k c0 by simp
qed

text \<open>
  Against claim C5 as stated: when \<open>unlink\<close> raises for the file of the oldest entry, the
  \<open>except\<close> clause skips the \<open>del\<close>, and the index keeps two entries under a maximum of one.
\<close>

theorem bound_exceeded_when_unlink_raises:
  "max_cache_files (put_all locked_env (example_cache 1) example_calls) = 1
   \<and> length (recording_cache_index (put_all locked_env (example_cache 1) example_calls)) = 2
   \<and> map fst (recording_cache_index (put_all locked_env (example_cache 1) example_calls))
     = [''6264a30ebd7d7c8e62f4981f64601d33'', ''99ffb3d9eeadc24aa4f9b13530176bf8'']"
  by (simp add: cache_example_defs)

subsection \<open>The same audio twice\<close>

text \<open>What holds of two calls with the same bytes whatever their outcome.\<close>

lemma same_audio_bounds:
  assumes "distinct (map fst (recording_cache_index c))"
    and "save_recording_file env t1 ok1 s1 c audio txt1 = (r1, c1)"
    and "save_recording_file env t2 ok2 s2 c1 audio txt2 = (r2, c2)"
  shows "distinct (map fst (recording_cache_index c2))
       \<and> fst ` set (recording_cache_index c2)
            \<subseteq> insert (get_recording_hash env audio) (fst ` set (recording_cache_index c))
       \<and> length (filter (\<lambda>kv. fst kv = get_recording_hash env audio) (recording_cache_index c2)) \<le> 1
       \<and> disk c2 \<subseteq> insert (path_of c (file_name_of env t1 audio))
                      (insert (path_of c (file_name_of env t2 audio)) (disk c))
       \<and> (t1 = t2 \<longrightarrow> disk c2 \<subseteq> insert (path_of c (file_name_of env t1 audio)) (disk c))
       \<and> (t1 = t2 \<and> r1 \<noteq> None \<and> r2 \<noteq> None \<longrightarrow> r1 = r2)"
proof -
  note f1 = put_frame [OF assms(1) assms(2)]
  then have d1: "distinct (map fst (recording_cache_index c1))" by simp
  note f2 = put_frame [OF d1 assms(3)]
  have p: "path_of c1 = path_of c" using f1 by (simp add: path_of_def fun_eq_iff)
  have d2: "distinct (map fst (recording_cache_index c2))" using f2 by simp
  have "distinct (map fst (filter (\<lambda>kv. fst kv = get_recording_hash env audio) (recording_cache_index c2)))"
    using d2 by (simp add: distinct_map_filter)
  moreover have "set (map fst (filter (\<lambda>kv. fst kv = get_recording_hash env audio) (recording_cache_index c2)))
      \<subseteq> {get_recording_hash env audio}"
    by auto
  ultimately have "length (map fst (filter (\<lambda>kv. fst kv = get_recording_hash env audio) (recording_cache_index c2)))
      \<le> card {get_recording_hash env audio}"
    by (metis distinct_card card_mono finite.emptyI finite.insertI)
  then have l: "length (filter (\<lambda>kv. fst kv = get_recording_hash env audio) (recording_cache_index c2)) \<le> 1"
    by simp
  have k: "fst ` set (recording_cache_index c2)
            \<subseteq> insert (get_recording_hash env audio) (fst ` set (recording_cache_index c))"
    using f1 f2 by blast
  have dk: "disk c2 \<subseteq> insert (path_of c (file_name_of env t1 audio))
                      (insert (path_of c (file_name_of env t2 audio)) (disk c))"
    using f1 f2 unfolding p by blast
  have r: "r1 = r2" if "t1 = t2" "r1 \<noteq> None" "r2 \<noteq> None"
    using f1 f2 that unfolding p by simp
  show ?thesis
    using d2 k l dk r by auto
qed

lemma length_alist_update:
  "length (AList.update k v al) = (if k \<in> fst ` set al then length al else Suc (length al))"
  by (induction al) auto

lemma put_succeeds:
  assumes "save_recordings c" and "has_recognizer s \<longrightarrow> ok" and "samplerate s \<noteq> 0"
    and "int (length (AList.update (get_recording_hash env audio)
           (new_entry t (file_name_of env t audio) s audio tx) (recording_cache_index c)))
         \<le> max_cache_files c"
  shows "fst (save_recording_file env t ok s c audio tx) = Some (path_of c (file_name_of env t audio))
       \<and> recording_cache_index (snd (save_recording_file env t ok s c audio tx))
           = AList.update (get_recording_hash env audio)
               (new_entry t (file_name_of env t audio) s audio tx) (recording_cache_index c)
       \<and> disk (snd (save_recording_file env t ok s c audio tx))
           = (if has_recognizer s then insert (path_of c (file_name_of env t audio)) (disk c)
              else disk c)
       \<and> max_cache_files (snd (save_recording_file env t ok s c audio tx)) = max_cache_files c
       \<and> save_recordings (snd (save_recording_file env t ok s c audio tx))
       \<and> recording_cache_dir (snd (save_recording_file env t ok s c audio tx)) = recording_cache_dir c"
proof -
  let ?p = "path_of c (file_name_of env t audio)"
  let ?c1 = "c\<lparr>disk := (if has_recognizer s then insert ?p (disk c) else disk c)\<rparr>"
  let ?c2 = "?c1\<lparr>recording_cache_index := AList.update (get_recording_hash env audio)
      (new_entry t (file_name_of env t audio) s audio tx) (recording_cache_index ?c1)\<rparr>"
  have eq: "save_recording_file env t ok s c audio tx =
      (case cleanup_recording_cache env ?c2 of
              (True, c3) \<Rightarrow> (None, c3)
            | (False, c3) \<Rightarrow>
                (Some ?p,
                 c3\<lparr>total_recordings := total_recordings c3 + 1,
                    successful_recognitions :=
                      (if truthy tx then successful_recognitions c3 + 1
                       else successful_recognitions c3),
                    cached_files := length (recording_cache_index c3)\<rparr>))"
    using assms(1-3)
    unfolding save_recording_file_def Let_def file_name_of_def new_entry_def
    by (cases "has_recognizer s") simp_all
  have cl: "cleanup_recording_cache env ?c2 = (False, ?c2)"
    using assms(4) by (simp add: cleanup_recording_cache_def)
  show ?thesis
    unfolding eq cl using assms(1) by simp
qed

text \<open>
  Claim C3, as amended. Two calls of \<open>_save_recording_file\<close> with the same bytes use the MD5
  digest of the bytes as key both times. Whatever the outcome of the calls, the index keeps
  distinct keys, gains no key but that digest and holds at most one entry under it, and the
  calls add no file but the two they name; in the same second they name the same file and
  return the same path. When both calls can store (recordings are saved, the write succeeds,
  \<open>samplerate\<close> is not zero and the index has room, so that nothing is evicted), each returns
  the path of its file, the first stores its entry under the digest and the second overwrites
  it: the index then holds exactly one entry for the bytes, the one of the later call, and the
  disk holds the files of both calls.
\<close>

theorem same_audio_same_key:
  assumes d: "distinct (map fst (recording_cache_index c))"
    and p1: "save_recording_file env t1 ok1 s1 c audio tx1 = (r1, c1)"
    and p2: "save_recording_file env t2 ok2 s2 c1 audio tx2 = (r2, c2)"
  shows "distinct (map fst (recording_cache_index c2))
       \<and> fst ` set (recording_cache_index c2)
            \<subseteq> insert (get_recording_hash env audio) (fst ` set (recording_cache_index c))
       \<and> length (filter (\<lambda>kv. fst kv = get_recording_hash env audio) (recording_cache_index c2)) \<le> 1
       \<and> disk c2 \<subseteq> insert (path_of c (file_name_of env t1 audio))
                      (insert (path_of c (file_name_of env t2 audio)) (disk c))
       \<and> (t1 = t2 \<longrightarrow> disk c2 \<subseteq> insert (path_of c (file_name_of env t1 audio)) (disk c))
       \<and> (t1 = t2 \<and> r1 \<noteq> None \<and> r2 \<noteq> None \<longrightarrow> r1 = r2)
       \<and> (save_recordings c \<and> (has_recognizer s1 \<longrightarrow> ok1) \<and> samplerate s1 \<noteq> 0
            \<and> (has_recognizer s2 \<longrightarrow> ok2) \<and> samplerate s2 \<noteq> 0
            \<and> int (length (recording_cache_index c)) < max_cache_files c \<longrightarrow>
            r1 = Some (path_of c (file_name_of env t1 audio))
            \<and> r2 = Some (path_of c (file_name_of env t2 audio))
            \<and> map_of (recording_cache_index c1) (get_recording_hash env audio)
                = Some (new_entry t1 (file_name_of env t1 audio) s1 audio tx1)
            \<and> map_of (recording_cache_index c2) (get_recording_hash env audio)
                = Some (new_entry t2 (file_name_of env t2 audio) s2 audio tx2)
            \<and> fst ` set (recording_cache_index c2)
                = insert (get_recording_hash env audio) (fst ` set (recording_cache_index c))
            \<and> length (filter (\<lambda>kv. fst kv = get_recording_hash env audio)
                  (recording_cache_index c2)) = 1
            \<and> length (recording_cache_index c2) = length (recording_cache_index c1)
            \<and> disk c1 = (if has_recognizer s1
                          then insert (path_of c (file_name_of env t1 audio)) (disk c) else disk c)
            \<and> disk c2 = (if has_recognizer s2
                          then insert (path_of c (file_name_of env t2 audio)) (disk c1) else disk c1))"
proof -
  let ?h = "get_recording_hash env audio"
  let ?e1 = "new_entry t1 (file_name_of env t1 audio) s1 audio tx1"
  let ?e2 = "new_entry t2 (file_name_of env t2 audio) s2 audio tx2"
  let ?idx = "recording_cache_index c"
  note b = same_audio_bounds [OF d p1 p2]
  have pos: "r1 = Some (path_of c (file_name_of env t1 audio))
            \<and> r2 = Some (path_of c (file_name_of env t2 audio))
            \<and> map_of (recording_cache_index c1) ?h = Some ?e1
            \<and> map_of (recording_cache_index c2) ?h = Some ?e2
            \<and> fst ` set (recording_cache_index c2) = insert ?h (fst ` set ?idx)
            \<and> length (filter (\<lambda>kv. fst kv = ?h) (recording_cache_index c2)) = 1
            \<and> length (recording_cache_index c2) = length (recording_cache_index c1)
            \<and> disk c1 = (if has_recognizer s1
                          then insert (path_of c (file_name_of env t1 audio)) (disk c) else disk c)
            \<and> disk c2 = (if has_recognizer s2
                          then insert (path_of c (file_name_of env t2 audio)) (disk c1) else disk c1)"
    if a: "save_recordings c" "has_recognizer s1 \<longrightarrow> ok1" "samplerate s1 \<noteq> 0"
      "has_recognizer s2 \<longrightarrow> ok2" "samplerate s2 \<noteq> 0"
      "int (length ?idx) < max_cache_files c"
  proof -
    have l1: "int (length (AList.update ?h ?e1 ?idx)) \<le> max_cache_files c"
      using a(6) by (simp add: length_alist_update)
    note s1 = put_succeeds [OF a(1) a(2) a(3) l1]
    have f1: "r1 = Some (path_of c (file_name_of env t1 audio))"
      "recording_cache_index c1 = AList.update ?h ?e1 ?idx"
      "disk c1 = (if has_recognizer s1
                  then insert (path_of c (file_name_of env t1 audio)) (disk c) else disk c)"
      "max_cache_files c1 = max_cache_files c" "save_recordings c1"
      "recording_cache_dir c1 = recording_cache_dir c"
      using s1 p1 by simp_all
    have pc: "path_of c1 = path_of c" using f1(6) by (simp add: path_of_def fun_eq_iff)
    have in1: "?h \<in> fst ` set (recording_cache_index c1)"
      unfolding f1(2) by (simp add: AList.dom_update)
    have l2: "int (length (AList.update ?h ?e2 (recording_cache_index c1))) \<le> max_cache_files c1"
      using l1 in1 f1(2,4) by (simp add: length_alist_update)
    note s2 = put_succeeds [OF f1(5) a(4) a(5) l2]
    have f2: "r2 = Some (path_of c (file_name_of env t2 audio))"
      "recording_cache_index c2 = AList.update ?h ?e2 (recording_cache_index c1)"
      "disk c2 = (if has_recognizer s2
                  then insert (path_of c (file_name_of env t2 audio)) (disk c1) else disk c1)"
      using s2 p2 unfolding pc by simp_all
    have m1: "map_of (recording_cache_index c1) ?h = Some ?e1"
      unfolding f1(2) by (simp add: AList.update_conv')
    have m2: "map_of (recording_cache_index c2) ?h = Some ?e2"
      unfolding f2(2) by (simp add: AList.update_conv')
    have k: "fst ` set (recording_cache_index c2) = insert ?h (fst ` set ?idx)"
      unfolding f2(2) f1(2) by (simp add: AList.dom_update)
    have "(?h, ?e2) \<in> set (recording_cache_index c2)"
      using m2 by (rule map_of_SomeD)
    then have "\<exists>x \<in> set (recording_cache_index c2). fst x = ?h"
      by (intro bexI [of _ "(?h, ?e2)"]) simp_all
    then have "filter (\<lambda>kv. fst kv = ?h) (recording_cache_index c2) \<noteq> []"
      by (simp add: filter_empty_conv)
    then have "0 < length (filter (\<lambda>kv. fst kv = ?h) (recording_cache_index c2))"
      by simp
    then have one: "length (filter (\<lambda>kv. fst kv = ?h) (recording_cache_index c2)) = 1"
      using b by linarith
    have len: "length (recording_cache_index c2) = length (recording_cache_index c1)"
      unfolding f2(2) using in1 by (simp add: length_alist_update)
    show ?thesis
      using f1(1,3) f2(1,3) m1 m2 k one len by blast
  qed
  show ?thesis
    using b pos by blast
qed

theorem same_audio_same_key_witness:
  "distinct (map fst (recording_cache_index (example_cache 5)))
   \<and> save_recordings (example_cache 5)
   \<and> samplerate (example_recorder True) \<noteq> 0
   \<and> int (length (recording_cache_index (example_cache 5))) < max_cache_files (example_cache 5)
   \<and> fst (save_recording_file example_env 100 True (example_recorder True) (example_cache 5)
        [1, 0, 2, 0] (Some ''Hello there'')) = Some ''recording_cache/rec_100_99ffb3d9.wav''
   \<and> map_of (recording_cache_index (put_all example_env (example_cache 5) same_audio_calls))
        ''99ffb3d9eeadc24aa4f9b13530176bf8''
      = Some (new_entry 101 ''rec_101_99ffb3d9.wav'' (example_recorder True) [1, 0, 2, 0]
                (Some ''Hello there''))
   \<and> length (recording_cache_index (put_all example_env (example_cache 5) same_audio_calls)) = 1"
proof -
  let ?s = "example_recorder True"
  let ?a = "[1, 0, 2, 0] :: bytes"
  let ?p1 = "save_recording_file example_env 100 True ?s (example_cache 5) ?a (Some ''Hello there'')"
  let ?p2 = "save_recording_file example_env 101 True ?s (snd ?p1) ?a (Some ''Hello there'')"
  have d: "distinct (map fst (recording_cache_index (example_cache 5)))"
    by (simp add: example_cache_def)
  have h: "save_recordings (example_cache 5)" "samplerate ?s \<noteq> 0"
    "int (length (recording_cache_index (example_cache 5))) < max_cache_files (example_cache 5)"
    by (simp_all add: example_cache_def example_recorder_def init_recorder_def)
  have n: "file_name_of example_env 100 ?a = ''rec_100_99ffb3d9.wav''"
    "file_name_of example_env 101 ?a = ''rec_101_99ffb3d9.wav''"
    "get_recording_hash example_env ?a = ''99ffb3d9eeadc24aa4f9b13530176bf8''"
    "path_of (example_cache 5) ''rec_100_99ffb3d9.wav'' = ''recording_cache/rec_100_99ffb3d9.wav''"
    by (simp_all add: file_name_of_def get_recording_hash_def example_env_def example_md5_def
        str_int_examples path_of_def example_cache_def)
  have pa: "put_all example_env (example_cache 5) same_audio_calls = snd ?p2"
    by (simp add: same_audio_calls_def)
  have "fst ?p1 = Some (path_of (example_cache 5) (file_name_of example_env 100 ?a))
      \<and> map_of (recording_cache_index (snd ?p2)) (get_recording_hash example_env ?a)
          = Some (new_entry 101 (file_name_of example_env 101 ?a) ?s ?a (Some ''Hello there''))
      \<and> length (filter (\<lambda>kv. fst kv = get_recording_hash example_env ?a)
            (recording_cache_index (snd ?p2))) = 1
      \<and> fst ` set (recording_cache_index (snd ?p2))
          = insert (get_recording_hash example_env ?a)
              (fst ` set (recording_cache_index (example_cache 5)))"
    using same_audio_same_key [OF d, of example_env 100 True ?s ?a "Some ''Hello there''"
        "fst ?p1" "snd ?p1" 101 True ?s "Some ''Hello there''" "fst ?p2" "snd ?p2"] h
    by simp
  then have f: "fst ?p1 = Some ''recording_cache/rec_100_99ffb3d9.wav''"
    "map_of (recording_cache_index (snd ?p2)) ''99ffb3d9eeadc24aa4f9b13530176bf8''
          = Some (new_entry 101 ''rec_101_99ffb3d9.wav'' ?s ?a (Some ''Hello there''))"
    "length (filter (\<lambda>kv. fst kv = ''99ffb3d9eeadc24aa4f9b13530176bf8'')
            (recording_cache_index (snd ?p2))) = 1"
    "fst ` set (recording_cache_index (snd ?p2)) = {''99ffb3d9eeadc24aa4f9b13530176bf8''}"
    unfolding n by (simp_all add: example_cache_def)
  have "filter (\<lambda>kv. fst kv = ''99ffb3d9eeadc24aa4f9b13530176bf8'') (recording_cache_index (snd ?p2))
      = recording_cache_index (snd ?p2)"
    using f(4) by (auto simp: filter_id_conv)
  then have l: "length (recording_cache_index (snd ?p2)) = 1"
    using f(3) by simp
  show ?thesis
    unfolding pa using d h f(1,2) l by simp
qed

text \<open>
  Against claim C3 as stated: the file name starts with the time, so the same bytes saved in
  two different seconds leave two files on disk, of which the index names only the later.
\<close>

theorem two_files_for_one_audio:
  "disk (put_all example_env (example_cache 5) same_audio_calls)
     = {''recording_cache/rec_100_99ffb3d9.wav'', ''recording_cache/rec_101_99ffb3d9.wav''}
   \<and> ''recording_cache/rec_100_99ffb3d9.wav'' \<noteq> ''recording_cache/rec_101_99ffb3d9.wav''
   \<and> map fst (recording_cache_index (put_all example_env (example_cache 5) same_audio_calls))
     = [''99ffb3d9eeadc24aa4f9b13530176bf8'']
   \<and> map (filename \<circ> snd) (recording_cache_index (put_all example_env (example_cache 5) same_audio_calls))
     = [''rec_101_99ffb3d9.wav'']"
  by (simp add: cache_example_defs insert_commute)

section \<open>Properties of the worker and of the capture gate\<close>

lemma pss_worker_flag:
  "process_speech_segments ok (t\<lparr>asr_consumer_active := b\<rparr>)
     = (process_speech_segments ok t)\<lparr>asr_consumer_active := b\<rparr>"
  by (simp add: process_speech_segments_def queue_full_def Let_def)

lemma ceor_worker_flag:
  "check_end_of_recording (t\<lparr>asr_consumer_active := b\<rparr>) w
     = (check_end_of_recording t w)\<lparr>asr_consumer_active := b\<rparr>"
proof -
  have "process_speech_segments ok
          (t\<lparr>asr_consumer_active := b, is_paused := True, show_standby_status := False\<rparr>)
     = (process_speech_segments ok (t\<lparr>is_paused := True, show_standby_status := False\<rparr>))
         \<lparr>asr_consumer_active := b\<rparr>" for ok
    by (simp add: process_speech_segments_def queue_full_def Let_def)
  then show ?thesis
    by (simp add: check_end_of_recording_def Let_def)
qed

lemma speech_window_worker_flag:
  "speech_window (t\<lparr>asr_consumer_active := b\<rparr>) raw w
      = map_sum (\<lambda>u. u\<lparr>asr_consumer_active := b\<rparr>) (\<lambda>u. u\<lparr>asr_consumer_active := b\<rparr>)
          (speech_window t raw w)"
  by (simp add: speech_window_def Let_def)

lemma silence_window_worker_flag:
  "silence_window (t\<lparr>asr_consumer_active := b\<rparr>) raw
      = (silence_window t raw)\<lparr>asr_consumer_active := b\<rparr>"
  by (simp add: silence_window_def Let_def)

lemma pab_worker_flag:
  "process_audio_buffer (t\<lparr>asr_consumer_active := b\<rparr>) w
     = map_option (\<lambda>u. u\<lparr>asr_consumer_active := b\<rparr>) (process_audio_buffer t w)"
proof (cases "speech_window t (concat (audio_buffer t)) w")
  case (Inl u)
  then show ?thesis
    by (simp add: process_audio_buffer_def Let_def speech_window_worker_flag
        silence_window_worker_flag ceor_worker_flag)
next
  case (Inr u)
  then show ?thesis
    by (simp add: process_audio_buffer_def Let_def speech_window_worker_flag
        silence_window_worker_flag ceor_worker_flag)
qed

lemma step_worker_flag:
  "step (t\<lparr>asr_consumer_active := b\<rparr>) e = (step t e)\<lparr>asr_consumer_active := b\<rparr>"
proof (cases e)
  case (Audio d w)
  let ?t1 = "t\<lparr>audio_buffer := audio_buffer t @ [d]\<rparr>"
  have eq: "t\<lparr>asr_consumer_active := b, audio_buffer := audio_buffer t @ [d]\<rparr>
      = ?t1\<lparr>asr_consumer_active := b\<rparr>"
    by simp
  have p: "process_audio_buffer
        (t\<lparr>asr_consumer_active := b, audio_buffer := audio_buffer t @ [d]\<rparr>) w
     = map_option (\<lambda>u. u\<lparr>asr_consumer_active := b\<rparr>) (process_audio_buffer ?t1 w)"
    unfolding eq by (rule pab_worker_flag)
  show ?thesis
    unfolding Audio step.simps audio_callback_def Let_def
    by (cases "process_audio_buffer ?t1 w") (simp_all add: p)
qed (simp_all add: resume_recording_def pause_recording_def Let_def)

lemma run_worker_flag:
  "run (t\<lparr>asr_consumer_active := b\<rparr>) es = (run t es)\<lparr>asr_consumer_active := b\<rparr>"
proof (induction es rule: rev_induct)
  case Nil
  show ?case by (simp add: run_def)
next
  case (snoc e es)
  then show ?case by (simp add: run_def step_worker_flag)
qed

lemma resume_when_paused:
  "is_paused s \<Longrightarrow> \<not> is_paused (resume_recording s)
     \<and> resume_calls (resume_recording s) = resume_calls s + 1"
  by (simp add: resume_recording_def Let_def)

lemma resume_again:
  "\<not> is_paused s \<Longrightarrow> \<not> is_paused (resume_recording s)
     \<and> resume_calls (resume_recording s) = resume_calls s + 1"
  by (simp add: resume_recording_def Let_def)

lemma response_resumes:
  assumes "is_paused s"
  shows "\<not> is_paused (process_ai_response r s)
       \<and> resume_calls (process_ai_response r s)
           = resume_calls s + (if ai_ok r \<and> tts_enabled r \<and> \<not> tts_ok r then 2 else 1)"
  using assms resume_when_paused [of s] resume_again [of "resume_recording s"]
  by (simp add: process_ai_response_def)

lemma queued_recorder_eval:
  "queued_recorder = (example_recorder True)
     \<lparr> is_paused := True, show_standby_status := False, last_active_time := 0.704,
       speech_segments := [], consecutive_speech_count := 0,
       asr_queue := [Some (left_channel (concat example_segments), 1.024, 0.6)],
       queued := 1 \<rparr>"
  by (simp add: queued_recorder_def example_utterance_def example_segments_def example_defs
      stereo_to_mono_def length_left_channel)

lemma after_fatal_eval:
  "after_fatal = (example_recorder True)
     \<lparr> is_paused := False, show_standby_status := True, last_active_time := 0.704,
       speech_segments := [], consecutive_speech_count := 0,
       asr_queue := [], queued := 1, processed := 1, resume_calls := 1,
       asr_consumer_active := False \<rparr>"
  by (simp add: after_fatal_def queued_recorder_eval asr_consumer_iteration_def
      example_iteration_def example_env_def text_ok_def call_callback_def worker_exception_def
      is_fatal_def ascii_lower_def ensure_recording_resumed_def resume_recording_def
      example_recorder_def init_recorder_def Let_def)

lemmas worker_example_defs = asr_consumer_iteration_def example_iteration_def example_env_def
  text_ok_def call_callback_def worker_exception_def is_fatal_def ascii_lower_def
  ensure_recording_resumed_def resume_recording_def example_recorder_def init_recorder_def
  Let_def handle_recording_def process_ai_response_def

subsection \<open>An exception that speaks of memory or of the model\<close>

text \<open>
  Claim C7, as amended. When the callback raises an exception whose message contains
  "memory" or "model", the worker resumes the capture, sets \<open>asr_consumer_active\<close> to false and
  leaves its loop, whatever turns would follow. It does not change \<open>enable_asr\<close> or the recognizer,
  and nothing on the side of the capture reads \<open>asr_consumer_active\<close>: the recorder goes on
  exactly as it would with a running worker, so a recording that ends later is put on the queue
  as before.
\<close>

theorem fatal_exception_stops_worker:
  assumes "asr_consumer_active s" and "asr_queue s = Some item # rest" and "has_recognizer s"
    and "text_ok env (recognized it)" and "callback_set it"
    and "call_callback it = Some msg" and "is_fatal env msg"
  shows "fst (asr_consumer_iteration env it s c) = Break
       \<and> \<not> asr_consumer_active (fst (snd (asr_consumer_iteration env it s c)))
       \<and> \<not> is_paused (fst (snd (asr_consumer_iteration env it s c)))
       \<and> enable_asr (fst (snd (asr_consumer_iteration env it s c))) = enable_asr s
       \<and> has_recognizer (fst (snd (asr_consumer_iteration env it s c)))
       \<and> asr_queue (fst (snd (asr_consumer_iteration env it s c))) = rest
       \<and> asr_consumer_worker env (it # its) s c = (True, snd (asr_consumer_iteration env it s c))
       \<and> run (fst (snd (asr_consumer_iteration env it s c))) es
           = (run ((fst (snd (asr_consumer_iteration env it s c)))\<lparr>asr_consumer_active := True\<rparr>) es)
               \<lparr>asr_consumer_active := False\<rparr>"
proof -
  obtain audio_data audio_length speech where item: "item = (audio_data, audio_length, speech)"
    by (cases item)
  let ?s1 = "s\<lparr>asr_queue := rest, processed := processed s + 1\<rparr>"
  have it: "asr_consumer_iteration env it s c
      = worker_exception env msg ?s1
          (snd (save_recording_file env (timestamp it) (wav_ok it) ?s1 c audio_data (recognized it)))"
    using assms by (simp add: asr_consumer_iteration_def item Let_def)
  let ?R = "asr_consumer_iteration env it s c"
  have f: "fst ?R = Break" "\<not> asr_consumer_active (fst (snd ?R))" "\<not> is_paused (fst (snd ?R))"
    "enable_asr (fst (snd ?R)) = enable_asr s" "has_recognizer (fst (snd ?R))"
    "asr_queue (fst (snd ?R)) = rest"
    using assms(3,7)
    by (simp_all add: it worker_exception_def ensure_recording_resumed_def resume_recording_def Let_def)
  have w: "asr_consumer_worker env (it # its) s c = (True, snd ?R)"
    using assms(1) f(1) by (cases ?R) (auto split: loop_control.splits)
  have "(fst (snd ?R))\<lparr>asr_consumer_active := True, asr_consumer_active := False\<rparr> = fst (snd ?R)"
    using f(2) by simp
  then have r: "run (fst (snd ?R)) es
      = (run ((fst (snd ?R))\<lparr>asr_consumer_active := True\<rparr>) es)\<lparr>asr_consumer_active := False\<rparr>"
    using run_worker_flag [where t = "(fst (snd ?R))\<lparr>asr_consumer_active := True\<rparr>" and b = False and es = es] by simp
  show ?thesis using f w r by simp
qed

theorem fatal_exception_stops_worker_witness:
  "asr_consumer_active queued_recorder
   \<and> asr_queue queued_recorder = [Some (left_channel (concat example_segments), 1.024, 0.6)]
   \<and> has_recognizer queued_recorder
   \<and> text_ok example_env (Some ''hello'')
   \<and> call_callback (example_iteration (Some ''hello'') (Raises False ''CUDA out of memory''))
        = Some ''CUDA out of memory''
   \<and> is_fatal example_env ''CUDA out of memory''
   \<and> fst (asr_consumer_iteration example_env
        (example_iteration (Some ''hello'') (Raises False ''CUDA out of memory''))
        queued_recorder (example_cache 5)) = Break
   \<and> \<not> asr_consumer_active after_fatal \<and> \<not> is_paused after_fatal \<and> enable_asr after_fatal"
  using fatal_exception_stops_worker [where s = queued_recorder
      and item = "(left_channel (concat example_segments), 1.024, 0.6)" and rest = "[]"
      and env = example_env
      and it = "example_iteration (Some ''hello'') (Raises False ''CUDA out of memory'')"
      and msg = "''CUDA out of memory''" and c = "example_cache 5" and its = "[]" and es = "[]"]
  by (simp add: after_fatal_eval queued_recorder_eval worker_example_defs)

text \<open>
  Against claim C7 as stated: after the worker has stopped, \<open>enable_asr\<close> is still true, and the
  next utterance is put on the queue (\<open>queued\<close> goes from 1 to 2, nothing is dropped) and pauses
  the capture.
\<close>

theorem worker_stops_asr_stays_enabled:
  "is_fatal example_env ''CUDA out of memory''
   \<and> \<not> asr_consumer_active after_fatal \<and> enable_asr after_fatal
   \<and> asr_queue after_fatal = [] \<and> queued after_fatal = 1
   \<and> length (asr_queue (run after_fatal later_utterance)) = 1
   \<and> queued (run after_fatal later_utterance) = 2
   \<and> dropped (run after_fatal later_utterance) = 0
   \<and> is_paused (run after_fatal later_utterance)"
  by (simp add: after_fatal_eval later_utterance_def example_defs is_fatal_def example_env_def
      ascii_lower_def stereo_to_mono_def)

subsection \<open>Releasing the capture gate\<close>

text \<open>
  Claim C1 asks that every recording that paused the capture is followed by exactly one call
  of \<open>resume_recording\<close>, on the path of a failed recognition as on the others. The code breaks
  this. The worker resumes after a failed recognition only under \<open>if recording_file\<close>, although
  the comment at that line says to resume when the recognition failed. So when no text is
  recognized and \<open>_save_recording_file\<close> returned no path (recordings are not saved, or the
  write failed), the turn of the worker ends normally, \<open>resume_recording\<close> is not called at all
  and the capture stays paused.
\<close>

theorem not_resumed_without_file:
  assumes "is_paused s" and "asr_queue s = Some item # rest" and "has_recognizer s"
    and "\<not> text_ok env (recognized it)" and "\<not> recording_saved env it s c"
  shows "is_paused (handle_recording env it r s c)
       \<and> resume_calls (handle_recording env it r s c) = resume_calls s
       \<and> fst (asr_consumer_iteration env (it\<lparr>callback_set := True, first_call := Returns\<rparr>) s c)
           = Continue"
proof -
  obtain audio_data audio_length speech where item: "item = (audio_data, audio_length, speech)"
    by (cases item)
  let ?it = "it\<lparr>callback_set := True, first_call := Returns\<rparr>"
  let ?s1 = "s\<lparr>asr_queue := rest, processed := processed s + 1\<rparr>"
  have it: "asr_consumer_iteration env ?it s c
      = (Continue, ?s1,
         snd (save_recording_file env (timestamp it) (wav_ok it) ?s1 c audio_data (recognized it)))"
    using assms(2-5)
    by (simp add: asr_consumer_iteration_def item Let_def recording_saved_def)
  then have "handle_recording env it r s c = ?s1"
    using assms(4) by (simp add: handle_recording_def Let_def)
  then show ?thesis
    using assms(1) it by simp
qed

theorem not_resumed_without_file_witness:
  "is_paused queued_recorder
   \<and> asr_queue queued_recorder = [Some (left_channel (concat example_segments), 1.024, 0.6)]
   \<and> has_recognizer queued_recorder
   \<and> \<not> text_ok example_env None
   \<and> \<not> recording_saved example_env (example_iteration None Returns) queued_recorder
         ((example_cache 5)\<lparr>save_recordings := False\<rparr>)
   \<and> resume_calls queued_recorder = 0
   \<and> is_paused (handle_recording example_env (example_iteration None Returns)
       \<lparr>ai_ok = True, tts_enabled = True, tts_ok = True\<rparr> queued_recorder
       ((example_cache 5)\<lparr>save_recordings := False\<rparr>))
   \<and> resume_calls (handle_recording example_env (example_iteration None Returns)
       \<lparr>ai_ok = True, tts_enabled = True, tts_ok = True\<rparr> queued_recorder
       ((example_cache 5)\<lparr>save_recordings := False\<rparr>)) = 0"
proof -
  have q: "is_paused queued_recorder"
    "asr_queue queued_recorder = [Some (left_channel (concat example_segments), 1.024, 0.6)]"
    "has_recognizer queued_recorder" "resume_calls queued_recorder = 0"
    by (simp_all add: queued_recorder_eval example_recorder_def init_recorder_def)
  have t: "\<not> text_ok example_env (recognized (example_iteration None Returns))"
    by (simp add: text_ok_def example_iteration_def)
  have n: "\<not> recording_saved example_env (example_iteration None Returns) queued_recorder
         ((example_cache 5)\<lparr>save_recordings := False\<rparr>)"
    by (simp add: recording_saved_def q save_recording_file_def example_cache_def)
  show ?thesis
    using not_resumed_without_file [OF q(1) q(2) q(3) t n,
        of "\<lparr>ai_ok = True, tts_enabled = True, tts_ok = True\<rparr>"] q t n
    by (simp add: example_iteration_def)
qed

text \<open>
  The other paths do resume. When the text is recognized, the thread started by
  \<open>on_recognition_result\<close> calls \<open>resume_recording\<close> once when the response and its playback
  succeed, when speech output is disabled and when the response fails, and twice when speech
  output fails (in the \<open>finally\<close> clause and again in the \<open>except\<close> clause around it; the second
  call finds the capture resumed and changes nothing). When no text is recognized and the
  recording file was saved, the worker resumes with one call.
\<close>

theorem resume_after_recording:
  assumes "is_paused s" and "asr_queue s = Some item # rest" and "has_recognizer s"
  shows "(text_ok env (recognized it) \<longrightarrow>
            \<not> is_paused (handle_recording env it r s c)
            \<and> resume_calls (handle_recording env it r s c)
                = resume_calls s + (if ai_ok r \<and> tts_enabled r \<and> \<not> tts_ok r then 2 else 1))
       \<and> (\<not> text_ok env (recognized it) \<and> recording_saved env it s c \<longrightarrow>
            \<not> is_paused (handle_recording env it r s c)
            \<and> resume_calls (handle_recording env it r s c) = resume_calls s + 1)"
proof -
  obtain audio_data audio_length speech where item: "item = (audio_data, audio_length, speech)"
    by (cases item)
  let ?it = "it\<lparr>callback_set := True, first_call := Returns\<rparr>"
  let ?s1 = "s\<lparr>asr_queue := rest, processed := processed s + 1\<rparr>"
  let ?t = "fst (snd (asr_consumer_iteration env ?it s c))"
  have p1: "is_paused ?s1" "resume_calls ?s1 = resume_calls s" using assms(1) by simp_all
  have ok: "?t = ?s1" if "text_ok env (recognized it)"
    using that assms(2,3)
    by (simp add: asr_consumer_iteration_def item Let_def call_callback_def)
  have fail: "?t = ensure_recording_resumed ?s1"
    if "\<not> text_ok env (recognized it)" "recording_saved env it s c"
    using that assms(2,3)
    by (simp add: asr_consumer_iteration_def item Let_def recording_saved_def)
  show ?thesis
  proof (intro conjI impI)
    assume t: "text_ok env (recognized it)"
    then have h: "handle_recording env it r s c = process_ai_response r ?s1"
      using ok by (simp add: handle_recording_def Let_def)
    show "\<not> is_paused (handle_recording env it r s c)"
      and "resume_calls (handle_recording env it r s c)
                = resume_calls s + (if ai_ok r \<and> tts_enabled r \<and> \<not> tts_ok r then 2 else 1)"
      unfolding h using response_resumes [OF p1(1), of r] p1(2) by simp_all
  next
    assume n: "\<not> text_ok env (recognized it) \<and> recording_saved env it s c"
    then have h: "handle_recording env it r s c = ensure_recording_resumed ?s1"
      using fail by (simp add: handle_recording_def Let_def)
    show "\<not> is_paused (handle_recording env it r s c)"
      and "resume_calls (handle_recording env it r s c) = resume_calls s + 1"
      unfolding h using resume_when_paused [OF p1(1)] p1
      by (simp_all add: ensure_recording_resumed_def)
  qed
qed

theorem resume_after_recording_witness:
  "is_paused queued_recorder
   \<and> asr_queue queued_recorder = [Some (left_channel (concat example_segments), 1.024, 0.6)]
   \<and> has_recognizer queued_recorder
   \<and> text_ok example_env (Some ''hello'')
   \<and> resume_calls (handle_recording example_env (example_iteration (Some ''hello'') Returns)
        \<lparr>ai_ok = True, tts_enabled = True, tts_ok = True\<rparr> queued_recorder (example_cache 5)) = 1
   \<and> \<not> is_paused (handle_recording example_env (example_iteration (Some ''hello'') Returns)
        \<lparr>ai_ok = True, tts_enabled = True, tts_ok = True\<rparr> queued_recorder (example_cache 5))
   \<and> \<not> text_ok example_env None
   \<and> recording_saved example_env (example_iteration None Returns) queued_recorder (example_cache 5)
   \<and> resume_calls (handle_recording example_env (example_iteration None Returns)
        \<lparr>ai_ok = True, tts_enabled = True, tts_ok = True\<rparr> queued_recorder (example_cache 5)) = 1
   \<and> \<not> is_paused (handle_recording example_env (example_iteration None Returns)
        \<lparr>ai_ok = True, tts_enabled = True, tts_ok = True\<rparr> queued_recorder (example_cache 5))"
proof -
  have q: "is_paused queued_recorder"
    "asr_queue queued_recorder = [Some (left_channel (concat example_segments), 1.024, 0.6)]"
    "has_recognizer queued_recorder" "resume_calls queued_recorder = 0"
    by (simp_all add: queued_recorder_eval example_recorder_def init_recorder_def)
  have t: "text_ok example_env (recognized (example_iteration (Some ''hello'') Returns))"
    "\<not> text_ok example_env (recognized (example_iteration None Returns))"
    by (simp_all add: text_ok_def example_iteration_def example_env_def)
  have s: "recording_saved example_env (example_iteration None Returns) queued_recorder
      (example_cache 5)"
    by (simp add: recording_saved_def q example_iteration_def save_recording_file_def
        example_cache_def queued_recorder_eval example_recorder_def init_recorder_def Let_def
        path_of_def cleanup_recording_cache_def)
  show ?thesis
    using resume_after_recording [OF q(1) q(2) q(3), where env = example_env
        and it = "example_iteration (Some ''hello'') Returns"
        and r = "\<lparr>ai_ok = True, tts_enabled = True, tts_ok = True\<rparr>" and c = "example_cache 5"]
      resume_after_recording [OF q(1) q(2) q(3), where env = example_env
        and it = "example_iteration None Returns"
        and r = "\<lparr>ai_ok = True, tts_enabled = True, tts_ok = True\<rparr>" and c = "example_cache 5"]
      q t s
    by (simp add: example_iteration_def)
qed

text \<open>
  The two calls when speech output fails, on the example recording.
\<close>

theorem resumed_twice_when_tts_fails:
  "is_paused queued_recorder \<and> resume_calls queued_recorder = 0
   \<and> text_ok example_env (Some ''hello'')
   \<and> resume_calls (handle_recording example_env (example_iteration (Some ''hello'') Returns)
        \<lparr>ai_ok = True, tts_enabled = True, tts_ok = False\<rparr> queued_recorder (example_cache 5)) = 2"
  by (simp add: queued_recorder_eval handle_recording_def asr_consumer_iteration_def
      example_iteration_def example_env_def text_ok_def call_callback_def
      process_ai_response_def resume_recording_def
      example_recorder_def init_recorder_def Let_def)

end
